theory Spec2Isabelle
  imports Main "HOL-Library.Sublist"
begin

section \<open>Python values used by the assistant\<close>

text \<open>
  A string is a list of characters, and a character is a Unicode code point below 256
  (Latin-1), which covers every keyword and notice of the program; text with code points
  beyond that range is outside the model.  An exception is represented by its message.  A value that Python types as
  \<open>Optional[str]\<close> is a \<open>string option\<close>, and its truth value is the one Python's
  \<open>if x:\<close> computes: \<open>None\<close> and the empty string are false.
\<close>

type_synonym exn = string

definition truthy :: "string option \<Rightarrow> bool" where
  "truthy x = (case x of None \<Rightarrow> False | Some s \<Rightarrow> s \<noteq> [])"

text \<open>Python's \<open>needle in hay\<close> on strings: \<open>needle\<close> occurs as a contiguous run of \<open>hay\<close>.\<close>

fun contains :: "string \<Rightarrow> string \<Rightarrow> bool" where
  "contains needle [] = (needle = [])"
| "contains needle (c # cs) = (prefix needle (c # cs) \<or> contains needle cs)"

text \<open>\<open>any(word in user_talk for word in words)\<close>.\<close>

definition any_in :: "string list \<Rightarrow> string \<Rightarrow> bool" where
  "any_in words user_talk = list_ex (\<lambda>word. contains word user_talk) words"

text \<open>
  The capital letters below code point 256 and their lowercase forms, in the same order:
  \<open>A\<close> to \<open>Z\<close>, then \<open>U+00C0\<close> to \<open>U+00DE\<close> without the multiplication sign
  \<open>U+00D7\<close>.
\<close>

definition upper_letters :: string where
  "upper_letters = ''ABCDEFGHIJKLMNOPQRSTUVWXYZ'' @
     [CHR 0xC0, CHR 0xC1, CHR 0xC2, CHR 0xC3, CHR 0xC4, CHR 0xC5, CHR 0xC6, CHR 0xC7,
      CHR 0xC8, CHR 0xC9, CHR 0xCA, CHR 0xCB, CHR 0xCC, CHR 0xCD, CHR 0xCE, CHR 0xCF,
      CHR 0xD0, CHR 0xD1, CHR 0xD2, CHR 0xD3, CHR 0xD4, CHR 0xD5, CHR 0xD6,
      CHR 0xD8, CHR 0xD9, CHR 0xDA, CHR 0xDB, CHR 0xDC, CHR 0xDD, CHR 0xDE]"

definition lower_letters :: string where
  "lower_letters = ''abcdefghijklmnopqrstuvwxyz'' @
     [CHR 0xE0, CHR 0xE1, CHR 0xE2, CHR 0xE3, CHR 0xE4, CHR 0xE5, CHR 0xE6, CHR 0xE7,
      CHR 0xE8, CHR 0xE9, CHR 0xEA, CHR 0xEB, CHR 0xEC, CHR 0xED, CHR 0xEE, CHR 0xEF,
      CHR 0xF0, CHR 0xF1, CHR 0xF2, CHR 0xF3, CHR 0xF4, CHR 0xF5, CHR 0xF6,
      CHR 0xF8, CHR 0xF9, CHR 0xFA, CHR 0xFB, CHR 0xFC, CHR 0xFD, CHR 0xFE]"

text \<open>\<open>str.lower()\<close>: each capital letter is replaced by its lowercase form, all else is kept.\<close>

definition lower_char :: "char \<Rightarrow> char" where
  "lower_char c = (case map_of (zip upper_letters lower_letters) c of Some d \<Rightarrow> d | None \<Rightarrow> c)"

definition lower :: "string \<Rightarrow> string" where
  "lower s = map lower_char s"

definition nl :: char where
  "nl = CHR 0x0A"

definition cr :: char where
  "cr = CHR 0x0D"

text \<open>
  \<open>str.isspace()\<close> below code point 256: the characters \<open>str.strip()\<close> removes, among
  them \<open>U+0085\<close> and the no-break space \<open>U+00A0\<close>.
\<close>

definition is_space :: "char \<Rightarrow> bool" where
  "is_space c = (c \<in> set [CHR 0x09, CHR 0x0A, CHR 0x0B, CHR 0x0C, CHR 0x0D,
                           CHR 0x1C, CHR 0x1D, CHR 0x1E, CHR 0x1F, CHR 0x20,
                           CHR 0x85, CHR 0xA0])"

definition strip :: "string \<Rightarrow> string" where
  "strip s = rev (dropWhile is_space (rev (dropWhile is_space s)))"

text \<open>
  A \<open>try: body except Exception as e: handler\<close> block: the body either raised (\<open>Inl\<close>)
  or produced a value (\<open>Inr\<close>).
\<close>

definition try_except :: "exn + 'a \<Rightarrow> (exn \<Rightarrow> exn + 'a) \<Rightarrow> exn + 'a" where
  "try_except body handler = (case body of Inl e \<Rightarrow> handler e | Inr v \<Rightarrow> Inr v)"


section \<open>Capture provider: \<open>iot_controller.get_frame\<close>\<close>

datatype frame = Frame nat

text \<open>
  What the two devices do when asked.  The network camera either makes some call of the
  first \<open>try\<close> block raise (\<open>urlopen\<close> with its timeout of 5 seconds, \<open>read\<close>,
  \<open>imdecode\<close>), or delivers bytes that \<open>imdecode\<close> turns into \<open>None\<close>, or delivers an
  image.  The local device either makes a call of the second block raise, or is not
  opened, or fails to read, or delivers an image.
\<close>

datatype net_outcome = NetRaises exn | NetUndecodable | NetImage frame

datatype local_outcome = LocalRaises exn | LocalNotOpened | LocalReadFails | LocalImage frame

datatype attempt = TryNetwork string nat | TryLocal nat

record camera_config =
  esp32_cam_url :: string
  camera_index :: nat

definition fetch_esp32 :: "net_outcome \<Rightarrow> exn + frame option" where
  "fetch_esp32 n = (case n of NetRaises e \<Rightarrow> Inl e
                            | NetUndecodable \<Rightarrow> Inr None
                            | NetImage f \<Rightarrow> Inr (Some f))"

definition read_local :: "local_outcome \<Rightarrow> exn + frame option" where
  "read_local l = (case l of LocalRaises e \<Rightarrow> Inl e
                           | LocalNotOpened \<Rightarrow> Inr None
                           | LocalReadFails \<Rightarrow> Inr None
                           | LocalImage f \<Rightarrow> Inr (Some f))"

text \<open>
  The result pairs the devices contacted, in order, with what the caller receives:
  \<open>Inl\<close> would be an exception leaving \<open>get_frame\<close>, \<open>Inr None\<close> is Python's \<open>None\<close>.
  The first block returns only when a frame was decoded; its handler only prints.
\<close>

definition get_frame :: "camera_config \<Rightarrow> net_outcome \<Rightarrow> local_outcome
    \<Rightarrow> attempt list \<times> (exn + frame option)" where
  "get_frame cfg n l =
     (case try_except (fetch_esp32 n) (\<lambda>e. Inr None) of
        Inr (Some frame) \<Rightarrow> ([TryNetwork (esp32_cam_url cfg) 5], Inr (Some frame))
      | Inr None \<Rightarrow>
          ([TryNetwork (esp32_cam_url cfg) 5, TryLocal (camera_index cfg)],
           try_except (read_local l) (\<lambda>e. Inr None))
      | Inl e \<Rightarrow> ([TryNetwork (esp32_cam_url cfg) 5], Inl e))"


section \<open>Emergency SOS and the follow-up response generator\<close>

text \<open>
  The SMS provider: constructing the client raises, or \<open>messages.create\<close> raises, or a
  message is created and carries the identifier the provider assigned.  The location
  lookup before it catches its own exceptions and only contributes to the message body.
\<close>

datatype twilio_outcome = ClientRaises exn | CreateRaises exn | Created string

definition send_sos_message :: "twilio_outcome \<Rightarrow> exn + string" where
  "send_sos_message t =
     try_except
       (case t of ClientRaises e \<Rightarrow> Inl e | CreateRaises e \<Rightarrow> Inl e | Created sid \<Rightarrow> Inr sid)
       (\<lambda>e. Inr (''Failed to send SOS message: '' @ e))"

text \<open>
  \<open>generate_contextual_response(user_input, context)\<close>; \<open>model\<close> is the remote model's
  \<open>generate_content\<close> followed by reading \<open>response.text\<close>, which may raise.
\<close>

definition generate_contextual_response :: "(string \<Rightarrow> exn + string) \<Rightarrow> string \<Rightarrow> string option
    \<Rightarrow> exn + string" where
  "generate_contextual_response model user_input context =
     (if truthy context then
        try_except (model (the context @ [nl] @ ''User: '' @ user_input))
          (\<lambda>e. Inr ''Sorry, I couldn't process your request.'')
      else Inr ''There is no context available to respond to your question.'')"


section \<open>The voice session\<close>

text \<open>
  A call either never returns (\<open>Hang\<close>: the program waits for the microphone and the
  recorded input is over), lets an exception escape (\<open>Raised\<close>) or returns (\<open>Done\<close>).
\<close>

datatype 'a outcome = Hang | Raised exn | Done 'a

datatype category = Scene | Sensory | Ocr | Sos | Navigation | Face

text \<open>
  What an observer of one run sees: a text handed to \<open>speak_text\<close>, an angle handed to
  \<open>set_servo_angle\<close>, a feature handler entered, and a call
  \<open>generate_contextual_response(user_input, context)\<close>.
\<close>

datatype event =
    Speak string
  | Servo nat
  | Invoke category
  | Ask string "string option"

text \<open>
  The state of a run.  \<open>voice\<close> is what the coming calls of \<open>get_voice_input\<close> return,
  in order; \<open>clock\<close> counts the calls made to the outside so far, so that the outside may
  answer differently each time; \<open>face_log\<close> is the state of \<open>face_log.txt\<close>
  (\<open>None\<close>: the file does not exist; \<open>Some (Inl e)\<close>: reading it raises \<open>e\<close>, as for
  bytes that do not decode; \<open>Some (Inr text)\<close>: it holds \<open>text\<close>) and \<open>image_files\<close>
  the image files on disk.
\<close>

record world =
  voice :: "string option list"
  clock :: nat
  trace :: "event list"
  face_log :: "(exn + string) option"
  image_files :: "string set"

text \<open>
  The outside, asked at a given moment.  \<open>imwrite\<close> is what \<open>cv2.imwrite\<close> does (it
  raises, or reports whether the image was saved), \<open>log_open\<close> whether opening the log
  for writing raises, \<open>undeletable\<close> the paths that exist and on which \<open>os.unlink\<close>
  raises (directories, protected files), \<open>face_output_dir\<close> is \<open>FACE_OUTPUT_DIR\<close>.
\<close>

record env =
  cam_cfg :: camera_config
  net_cam :: "nat \<Rightarrow> net_outcome"
  local_cam :: "nat \<Rightarrow> local_outcome"
  vision :: "nat \<Rightarrow> category \<Rightarrow> frame \<Rightarrow> exn + string"
  genai :: "nat \<Rightarrow> string \<Rightarrow> exn + string"
  twilio :: "nat \<Rightarrow> twilio_outcome"
  face_cam :: "nat \<Rightarrow> frame option"
  face_count :: "nat \<Rightarrow> nat"
  manual_entry :: "nat \<Rightarrow> exn + string"
  timestamp :: "nat \<Rightarrow> string"
  imwrite :: "nat \<Rightarrow> exn + bool"
  log_open :: "nat \<Rightarrow> exn option"
  undeletable :: "string set"
  face_output_dir :: string

definition tick :: "world \<Rightarrow> world" where
  "tick w = w\<lparr>clock := Suc (clock w)\<rparr>"

definition emit :: "event \<Rightarrow> world \<Rightarrow> world" where
  "emit e w = w\<lparr>trace := trace w @ [e]\<rparr>"

text \<open>\<open>speak_text\<close> and \<open>set_servo_angle\<close> catch every exception; no caller reads a result.\<close>

definition speak_text :: "string \<Rightarrow> world \<Rightarrow> world" where
  "speak_text text w = emit (Speak text) w"

definition set_servo_angle :: "nat \<Rightarrow> world \<Rightarrow> world" where
  "set_servo_angle angle w = emit (Servo angle) w"

text \<open>\<open>get_voice_input\<close> returns the transcript or \<open>None\<close>; it catches every exception.\<close>

definition get_voice_input :: "world \<Rightarrow> string option outcome \<times> world" where
  "get_voice_input w =
     (case voice w of
        [] \<Rightarrow> (Hang, w)
      | v # vs \<Rightarrow> (Done v, tick (w\<lparr>voice := vs\<rparr>)))"

text \<open>
  The four handlers that photograph and ask a remote model share one shape: fetch a frame,
  give up with \<open>None\<close> when there is none, ask the model, and turn any exception into
  \<open>None\<close>.  \<open>vision\<close> stands for everything between the frame and \<open>response.text\<close>.
\<close>

definition capture_and_ask :: "env \<Rightarrow> category \<Rightarrow> world \<Rightarrow> string option \<times> world" where
  "capture_and_ask env c w =
     (case snd (get_frame (cam_cfg env) (net_cam env (clock w)) (local_cam env (clock w))) of
        Inl e \<Rightarrow> (None, tick w)
      | Inr None \<Rightarrow> (None, tick w)
      | Inr (Some frame) \<Rightarrow>
          (case vision env (clock w) c frame of
             Inl e \<Rightarrow> (None, tick w)
           | Inr text \<Rightarrow> (Some text, tick w)))"

definition analyze_scene :: "env \<Rightarrow> world \<Rightarrow> string option \<times> world" where
  "analyze_scene env w = capture_and_ask env Scene (set_servo_angle 115 (emit (Invoke Scene) w))"

definition recognize_object :: "env \<Rightarrow> world \<Rightarrow> string option \<times> world" where
  "recognize_object env w =
     (case capture_and_ask env Sensory (emit (Invoke Sensory) w) of
        (None, w1) \<Rightarrow> (None, w1)
      | (Some context, w1) \<Rightarrow> (Some context, speak_text context w1))"

definition extract_text_from_image :: "env \<Rightarrow> world \<Rightarrow> string option \<times> world" where
  "extract_text_from_image env w =
     (case capture_and_ask env Ocr (emit (Invoke Ocr) w) of
        (None, w1) \<Rightarrow> (None, w1)
      | (Some extracted_text, w1) \<Rightarrow> (Some extracted_text, speak_text extracted_text w1))"

definition analyze_environment :: "env \<Rightarrow> world \<Rightarrow> string option \<times> world" where
  "analyze_environment env w =
     (case capture_and_ask env Navigation (set_servo_angle 90 (emit (Invoke Navigation) w)) of
        (None, w1) \<Rightarrow> (None, w1)
      | (Some text, w1) \<Rightarrow> (Some text, speak_text text w1))"


subsection \<open>The follow-up sub-session: \<open>handle_follow_up_queries\<close>\<close>

lemma get_voice_input_shorter:
  "get_voice_input w = (Done v, w') \<Longrightarrow> length (voice w') < length (voice w)"
  by (auto simp: get_voice_input_def tick_def split: list.splits)

lemma voice_speak_text [simp]: "voice (speak_text t w) = voice w"
  by (simp add: speak_text_def emit_def)

lemma voice_emit [simp]: "voice (emit e w) = voice w"
  by (simp add: emit_def)

lemma voice_tick [simp]: "voice (tick w) = voice w"
  by (simp add: tick_def)

lemma voice_set_servo_angle [simp]: "voice (set_servo_angle a w) = voice w"
  by (simp add: set_servo_angle_def)

function handle_follow_up_queries :: "env \<Rightarrow> string option \<Rightarrow> world \<Rightarrow> unit outcome \<times> world" where
  "handle_follow_up_queries env context w =
     (case get_voice_input (speak_text ''You can ask follow-up questions or say 'exit' to end.'' w) of
        (Hang, w1) \<Rightarrow> (Hang, w1)
      | (Raised e, w1) \<Rightarrow> (Raised e, w1)
      | (Done user_query, w1) \<Rightarrow>
          if truthy user_query then
            if contains ''exit'' (lower (the user_query)) then
              (Done (), speak_text ''Exiting follow-up session.'' w1)
            else
              (case generate_contextual_response (genai env (clock w1)) (lower (the user_query)) context of
                 Inl e \<Rightarrow> (Raised e, tick (emit (Ask (lower (the user_query)) context) w1))
               | Inr response \<Rightarrow>
                   handle_follow_up_queries env context
                     (speak_text response (tick (emit (Ask (lower (the user_query)) context) w1))))
          else
            handle_follow_up_queries env context
              (speak_text ''No valid input detected. Please try again or say 'exit' to end.'' w1))"
  by pat_completeness auto
termination
  by (relation "measure (\<lambda>(env, context, w). length (voice w))")
     (auto dest!: get_voice_input_shorter [OF sym])

declare handle_follow_up_queries.simps [simp del]


subsection \<open>Face registration and its log: \<open>face_recognition.py\<close>\<close>

text \<open>\<open>os.path.join(a, b)\<close> of \<open>posixpath\<close>, for two components.\<close>

definition os_path_join :: "string \<Rightarrow> string \<Rightarrow> string" where
  "os_path_join a b =
     (if b \<noteq> [] \<and> hd b = CHR ''/'' then b
      else if a = [] \<or> last a = CHR ''/'' then a @ b
      else a @ ''/'' @ b)"

text \<open>
  Appending a line to the log in mode \<open>a\<close>: the file is created when it does not exist,
  and bytes that do not decode stay in front of the new line.
\<close>

definition append_log :: "(exn + string) option \<Rightarrow> string \<Rightarrow> (exn + string) option" where
  "append_log f line =
     (case f of
        None \<Rightarrow> Some (Inr line)
      | Some (Inl e) \<Rightarrow> Some (Inl e)
      | Some (Inr content) \<Rightarrow> Some (Inr (content @ line)))"

text \<open>
  The tail of \<open>register_new_face\<close>, once a name is known: name the image after the person
  and the time, save it, and append one line to the log.  The result of \<open>cv2.imwrite\<close> is
  not looked at; an exception of \<open>imwrite\<close> or of opening the log is caught by the
  \<open>except\<close> around the whole body, which returns \<open>None\<close>.
\<close>

definition save_registration :: "env \<Rightarrow> string \<Rightarrow> world \<Rightarrow> string option outcome \<times> world" where
  "save_registration env person_name w =
     (let file_name = person_name @ ''_'' @ timestamp env (clock w) @ ''.jpg'';
          output_path = os_path_join (face_output_dir env) file_name
      in case imwrite env (clock w) of
           Inl e \<Rightarrow> (Done None, tick w)
         | Inr saved \<Rightarrow>
             (case log_open env (Suc (clock w)) of
                Some e \<Rightarrow>
                  (Done None,
                   tick (tick (w\<lparr>image_files :=
                      (if saved then insert output_path (image_files w) else image_files w)\<rparr>)))
              | None \<Rightarrow>
                  (Done (Some person_name),
                   tick (tick (w\<lparr>image_files :=
                      (if saved then insert output_path (image_files w) else image_files w),
                     face_log := append_log (face_log w) (person_name @ '', '' @ output_path @ [nl])\<rparr>)))))"

text \<open>
  \<open>register_new_face\<close>.  The module's own \<open>get_frame\<close> reads the default local camera and
  returns \<open>None\<close> on every failure; \<open>face_count\<close> is the number of faces the detector
  reports (none when it raises).  The name is asked by voice, then typed by hand;
  \<open>input()\<close> may raise, and the \<open>try\<close> around the whole body turns that into \<open>None\<close>.
\<close>

definition register_new_face :: "env \<Rightarrow> world \<Rightarrow> string option outcome \<times> world" where
  "register_new_face env w0 =
     (let w = emit (Invoke Face) w0 in
      case face_cam env (clock w) of
        None \<Rightarrow> (Done None, tick w)
      | Some frame \<Rightarrow>
          if face_count env (clock w) = 0 then (Done None, tick w)
          else
            (case get_voice_input (tick w) of
               (Hang, w1) \<Rightarrow> (Hang, w1)
             | (Raised e, w1) \<Rightarrow> (Done None, w1)
             | (Done person_name, w1) \<Rightarrow>
                 if truthy person_name then save_registration env (the person_name) w1
                 else
                   (case manual_entry env (clock w1) of
                      Inl e \<Rightarrow> (Done None, tick w1)
                    | Inr typed \<Rightarrow>
                        if strip typed = [] then (Done None, tick w1)
                        else save_registration env (strip typed) (tick w1))))"

text \<open>
  Reading the log in text mode: \<open>\r\n\<close> and \<open>\r\<close> become \<open>\n\<close>, and iterating over the
  file yields the lines with their terminators.
\<close>

fun universal_newlines :: "string \<Rightarrow> string" where
  "universal_newlines [] = []"
| "universal_newlines [c] = (if c = cr then [nl] else [c])"
| "universal_newlines (c # d # ds) =
     (if c = cr \<and> d = nl then nl # universal_newlines ds
      else if c = cr then nl # universal_newlines (d # ds)
      else c # universal_newlines (d # ds))"

fun file_lines :: "string \<Rightarrow> string list" where
  "file_lines [] = []"
| "file_lines (c # cs) =
     (if c = nl then [c] # file_lines cs
      else (case file_lines cs of [] \<Rightarrow> [[c]] | l # ls \<Rightarrow> (c # l) # ls))"

text \<open>
  \<open>name, file_path = line.strip().split(",", 1)\<close>: without a comma the unpacking raises
  \<open>ValueError\<close>.
\<close>

definition split_entry :: "string \<Rightarrow> exn + string \<times> string" where
  "split_entry line =
     (let s = strip line in
      if CHR '','' \<in> set s
      then Inr (takeWhile (\<lambda>c. c \<noteq> CHR '','') s, tl (dropWhile (\<lambda>c. c \<noteq> CHR '','') s))
      else Inl ''not enough values to unpack (expected 2, got 1)'')"

text \<open>The loop over the lines, with its two accumulators.\<close>

fun scan_log :: "string \<Rightarrow> string list \<Rightarrow> string list \<times> string list
    \<Rightarrow> exn + string list \<times> string list" where
  "scan_log person_name [] (registrations, deleted_files) = Inr (registrations, deleted_files)"
| "scan_log person_name (line # rest) (registrations, deleted_files) =
     (if strip line \<noteq> [] then
        (case split_entry line of
           Inl e \<Rightarrow> Inl e
         | Inr (name, file_path) \<Rightarrow>
             if strip name = person_name
             then scan_log person_name rest (registrations, deleted_files @ [strip file_path])
             else scan_log person_name rest (registrations @ [line], deleted_files))
      else scan_log person_name rest (registrations, deleted_files))"

text \<open>
  The loop that removes the image files: a path that does not exist is skipped, and
  \<open>os.unlink\<close> raises on a path it cannot remove.  The files removed before that stay
  removed.
\<close>

fun unlink_all :: "string set \<Rightarrow> string list \<Rightarrow> string set \<Rightarrow> exn option \<times> string set" where
  "unlink_all undel [] files = (None, files)"
| "unlink_all undel (file_path # rest) files =
     (if file_path \<in> undel then (Some (''cannot unlink '' @ file_path), files)
      else unlink_all undel rest (files - {file_path}))"

text \<open>
  \<open>delete_face_registration\<close>: the log is read to its end, then the images are unlinked,
  then the log is rewritten.  Every exception on the way is caught by the \<open>except\<close>
  around the body, which returns \<open>False\<close>; what was done before it stays done.
\<close>

definition delete_face_registration :: "env \<Rightarrow> string \<Rightarrow> world \<Rightarrow> bool \<times> world" where
  "delete_face_registration env person_name w =
     (case face_log w of
        None \<Rightarrow> (False, w)
      | Some (Inl e) \<Rightarrow> (False, w)
      | Some (Inr content) \<Rightarrow>
          (case scan_log person_name (file_lines (universal_newlines content)) ([], []) of
             Inl e \<Rightarrow> (False, w)
           | Inr (registrations, deleted_files) \<Rightarrow>
               (case unlink_all (undeletable env) deleted_files (image_files w) of
                  (Some e, files) \<Rightarrow> (False, w\<lparr>image_files := files\<rparr>)
                | (None, files) \<Rightarrow>
                    (case log_open env (clock w) of
                       Some e \<Rightarrow> (False, w\<lparr>image_files := files\<rparr>)
                     | None \<Rightarrow>
                         (True, w\<lparr>image_files := files,
                                  face_log := Some (Inr (concat registrations))\<rparr>)))))"


subsection \<open>The dispatcher and the session loop: \<open>main.start\<close>\<close>

definition scene_trigger :: "string list" where
  "scene_trigger = [''scene'', ''describe'', ''description'', ''seeing'', ''see'']"

definition sensory_trigger :: "string list" where
  "sensory_trigger = [''sensory'', ''search'', ''holding'', ''buy'']"

definition ocr_trigger :: "string list" where
  "ocr_trigger = [''read'', ''book'', ''notice'', ''pamphlet'']"

definition sos_trigger :: "string list" where
  "sos_trigger = [''sos'', ''emergency'', ''help'']"

definition face_trigger :: "string list" where
  "face_trigger = [''face'', ''recognize'', ''register'']"

definition nav_trigger :: "string list" where
  "nav_trigger = [''navigation'', ''route'', ''navigate'', ''path'', ''show me route'', ''show me'']"

text \<open>The six \<open>if\<close> statements of the loop body, each a step on the state.\<close>

definition scene_step :: "env \<Rightarrow> string \<Rightarrow> world \<Rightarrow> unit outcome \<times> world" where
  "scene_step env user_talk w =
     (if any_in scene_trigger user_talk then
        (case analyze_scene env (set_servo_angle 115 w) of
           (scene_description, w1) \<Rightarrow>
             if truthy scene_description then (Done (), speak_text (the scene_description) w1)
             else (Done (), speak_text ''Failed to analyze scene'' w1))
      else (Done (), w))"

definition sensory_step :: "env \<Rightarrow> string \<Rightarrow> world \<Rightarrow> unit outcome \<times> world" where
  "sensory_step env user_talk w =
     (if any_in sensory_trigger user_talk then
        (case recognize_object env w of
           (object_info, w1) \<Rightarrow>
             if truthy object_info then handle_follow_up_queries env object_info w1
             else (Done (), speak_text ''Failed to recognize object'' w1))
      else (Done (), w))"

definition ocr_step :: "env \<Rightarrow> string \<Rightarrow> world \<Rightarrow> unit outcome \<times> world" where
  "ocr_step env user_talk w =
     (if any_in ocr_trigger user_talk then
        (case extract_text_from_image env (set_servo_angle 115 w) of
           (extracted_text, w1) \<Rightarrow>
             if \<not> truthy extracted_text then (Done (), speak_text ''Failed to extract text from image'' w1)
             else (Done (), w1))
      else (Done (), w))"

definition sos_step :: "env \<Rightarrow> string \<Rightarrow> world \<Rightarrow> unit outcome \<times> world" where
  "sos_step env user_talk w =
     (if any_in sos_trigger user_talk then
        (case send_sos_message (twilio env (clock w)) of
           Inl e \<Rightarrow> (Raised e, tick (emit (Invoke Sos) w))
         | Inr result \<Rightarrow>
             if contains ''SID'' result
             then (Done (), speak_text ''SOS message sent successfully'' (tick (emit (Invoke Sos) w)))
             else (Done (), speak_text ''Failed to send SOS message'' (tick (emit (Invoke Sos) w))))
      else (Done (), w))"

definition nav_step :: "env \<Rightarrow> string \<Rightarrow> world \<Rightarrow> unit outcome \<times> world" where
  "nav_step env user_talk w =
     (if any_in nav_trigger user_talk then
        (case analyze_environment env (set_servo_angle 90 w) of
           (navigation_info, w1) \<Rightarrow>
             if \<not> truthy navigation_info
             then (Done (), speak_text ''Failed to analyze environment for navigation'' w1)
             else (Done (), w1))
      else (Done (), w))"

definition face_step :: "env \<Rightarrow> string \<Rightarrow> world \<Rightarrow> unit outcome \<times> world" where
  "face_step env user_talk w =
     (if any_in face_trigger user_talk then
        (case register_new_face env (set_servo_angle 90 w) of
           (Hang, w1) \<Rightarrow> (Hang, w1)
         | (Raised e, w1) \<Rightarrow> (Raised e, w1)
         | (Done detected_name, w1) \<Rightarrow>
             if truthy detected_name
             then (Done (), speak_text (''Face registered as '' @ the detected_name) w1)
             else (Done (), speak_text ''Face registration failed.'' w1))
      else (Done (), w))"

text \<open>Statements in sequence: the next one runs when the one before has returned.\<close>

fun run_steps :: "(world \<Rightarrow> unit outcome \<times> world) list \<Rightarrow> world \<Rightarrow> unit outcome \<times> world" where
  "run_steps [] w = (Done (), w)"
| "run_steps (s # ss) w =
     (case s w of
        (Done u, w1) \<Rightarrow> run_steps ss w1
      | (Hang, w1) \<Rightarrow> (Hang, w1)
      | (Raised e, w1) \<Rightarrow> (Raised e, w1))"

definition dispatch :: "env \<Rightarrow> string \<Rightarrow> world \<Rightarrow> unit outcome \<times> world" where
  "dispatch env user_talk =
     run_steps [scene_step env user_talk, sensory_step env user_talk, ocr_step env user_talk,
                sos_step env user_talk, nav_step env user_talk, face_step env user_talk]"

text \<open>
  One pass through the body of the inner \<open>while True\<close>: listen, dispatch, test for
  \<open>exit\<close>.  \<open>Return\<close> is the \<open>return\<close> statement of \<open>start\<close>.
\<close>

datatype control = Continue | Return

definition cycle :: "env \<Rightarrow> world \<Rightarrow> control outcome \<times> world" where
  "cycle env w =
     (case get_voice_input w of
        (Hang, w1) \<Rightarrow> (Hang, w1)
      | (Raised e, w1) \<Rightarrow> (Raised e, w1)
      | (Done user_talk, w1) \<Rightarrow>
          if truthy user_talk then
            (case dispatch env (the user_talk) w1 of
               (Hang, w2) \<Rightarrow> (Hang, w2)
             | (Raised e, w2) \<Rightarrow> (Raised e, w2)
             | (Done u, w2) \<Rightarrow>
                 if contains ''exit'' (the user_talk)
                 then (Done Return, speak_text ''Exiting now.'' w2)
                 else (Done Continue, w2))
          else (Done Continue, speak_text ''No Input'' w1))"


subsection \<open>Every call consumes recorded input, none adds to it\<close>

lemma voice_capture_and_ask: "capture_and_ask env c w = (r, w') \<Longrightarrow> voice w' = voice w"
  by (auto simp: capture_and_ask_def split: sum.splits option.splits)

lemma voice_follow_up:
  "handle_follow_up_queries env ctx w = (r, w') \<Longrightarrow> length (voice w') \<le> length (voice w)"
proof (induction env ctx w arbitrary: r w' rule: handle_follow_up_queries.induct)
  case (1 env ctx w)
  show ?case
  proof (cases "get_voice_input (speak_text ''You can ask follow-up questions or say 'exit' to end.'' w)")
    case (Pair o1 w1)
    show ?thesis
    proof (cases o1)
      case Hang
      with Pair "1.prems" show ?thesis
        by (auto simp: handle_follow_up_queries.simps [of env ctx w] get_voice_input_def split: list.splits)
    next
      case (Raised e)
      with Pair "1.prems" show ?thesis
        by (auto simp: handle_follow_up_queries.simps [of env ctx w] get_voice_input_def split: list.splits)
    next
      case (Done q)
      from Pair Done have less: "length (voice w1) < length (voice w)"
        using get_voice_input_shorter by fastforce
      show ?thesis
        using "1.prems" "1.IH" Pair Done less
        apply (simp add: handle_follow_up_queries.simps [of env ctx w] split: if_splits sum.splits)
        apply fastforce+
        done
    qed
  qed
qed

lemma voice_register_new_face:
  "register_new_face env w = (r, w') \<Longrightarrow> length (voice w') \<le> length (voice w)"
  by (auto simp: register_new_face_def save_registration_def Let_def get_voice_input_def tick_def
           split: option.splits if_splits list.splits sum.splits)

lemma voice_scene_step: "scene_step env u w = (r, w') \<Longrightarrow> length (voice w') \<le> length (voice w)"
  by (auto simp: scene_step_def analyze_scene_def split: if_splits prod.splits
           dest!: voice_capture_and_ask)

lemma voice_sensory_step: "sensory_step env u w = (r, w') \<Longrightarrow> length (voice w') \<le> length (voice w)"
  by (auto simp: sensory_step_def recognize_object_def split: if_splits prod.splits option.splits
           dest!: voice_capture_and_ask voice_follow_up)

lemma voice_ocr_step: "ocr_step env u w = (r, w') \<Longrightarrow> length (voice w') \<le> length (voice w)"
  by (auto simp: ocr_step_def extract_text_from_image_def split: if_splits prod.splits option.splits
           dest!: voice_capture_and_ask)

lemma voice_sos_step: "sos_step env u w = (r, w') \<Longrightarrow> length (voice w') \<le> length (voice w)"
  by (auto simp: sos_step_def split: if_splits sum.splits)

lemma voice_nav_step: "nav_step env u w = (r, w') \<Longrightarrow> length (voice w') \<le> length (voice w)"
  by (auto simp: nav_step_def analyze_environment_def split: if_splits prod.splits option.splits
           dest!: voice_capture_and_ask)

lemma voice_face_step: "face_step env u w = (r, w') \<Longrightarrow> length (voice w') \<le> length (voice w)"
  by (auto simp: face_step_def split: if_splits prod.splits outcome.splits
           dest!: voice_register_new_face)

lemma voice_run_steps:
  assumes "\<forall>s \<in> set ss. \<forall>w r w'. s w = (r, w') \<longrightarrow> length (voice w') \<le> length (voice w)"
  shows "run_steps ss w = (r, w') \<Longrightarrow> length (voice w') \<le> length (voice w)"
  using assms
proof (induction ss arbitrary: w)
  case Nil
  then show ?case by simp
next
  case (Cons s ss)
  obtain r1 w1 where s: "s w = (r1, w1)" by (cases "s w")
  with Cons.prems have le1: "length (voice w1) \<le> length (voice w)" by simp
  show ?case
  proof (cases r1)
    case (Done u)
    with s Cons.prems have "run_steps ss w1 = (r, w')" by simp
    with Cons.IH Cons.prems have "length (voice w') \<le> length (voice w1)" by simp
    with le1 show ?thesis by simp
  qed (use s Cons.prems le1 in auto)
qed

lemma voice_dispatch: "dispatch env u w = (r, w') \<Longrightarrow> length (voice w') \<le> length (voice w)"
  unfolding dispatch_def
  by (erule voice_run_steps [rotated])
     (auto dest: voice_scene_step voice_sensory_step voice_ocr_step voice_sos_step
                 voice_nav_step voice_face_step)

lemma voice_cycle:
  "cycle env w = (Done c, w') \<Longrightarrow> length (voice w') < length (voice w)"
  by (auto simp: cycle_def split: prod.splits outcome.splits if_splits
           dest!: get_voice_input_shorter voice_dispatch)

text \<open>
  The inner \<open>while True\<close> of \<open>start\<close>.  It has no \<open>break\<close>, so the outer loop, which
  announces \<open>Start to speak\<close>, runs its body once.  Each pass consumes at least one
  result of \<open>get_voice_input\<close>, so the loop is defined by recursion on what is left of
  the recorded input.
\<close>

function listen_loop :: "env \<Rightarrow> world \<Rightarrow> unit outcome \<times> world" where
  "listen_loop env w =
     (case cycle env w of
        (Hang, w1) \<Rightarrow> (Hang, w1)
      | (Raised e, w1) \<Rightarrow> (Raised e, w1)
      | (Done Return, w1) \<Rightarrow> (Done (), w1)
      | (Done Continue, w1) \<Rightarrow> listen_loop env w1)"
  by pat_completeness auto
termination
  by (relation "measure (\<lambda>(env, w). length (voice w))")
     (auto dest!: voice_cycle [OF sym])

declare listen_loop.simps [simp del]

definition start :: "env \<Rightarrow> world \<Rightarrow> unit outcome \<times> world" where
  "start env w = listen_loop env (speak_text ''Start to speak'' w)"


section \<open>Batch video analysis: \<open>video_analyzer.py\<close>\<close>

text \<open>
  The producer and the consumer share one unbounded first-in-first-out queue with a
  single writer and a single reader, so what the reader dequeues, and in which order,
  is what the writer enqueued.  The queue is the list of the items put so far, oldest
  first; an item is \<open>(frame file, timestamp)\<close> or the sentinel \<open>None\<close>.  The frame
  file is named after the frame's number.
\<close>

datatype frame_data = FrameData nat string

type_synonym frame_queue = "frame_data option list"

text \<open>
  One pass of the capture loop as the camera and the keyboard decide it: \<open>cap.read()\<close>
  fails, or a frame is read at the given time and \<open>waitKey\<close> then reports whether
  \<open>q\<close> was pressed.
\<close>

datatype cam_pass = ReadFails | Shot string bool

record camera_run =
  opened :: bool
  fps :: nat
  passes :: "cam_pass list"

text \<open>
  The \<open>while True\<close> of \<open>capture_frames\<close>.  \<open>frame_count % frame_interval\<close> raises
  \<open>ZeroDivisionError\<close> when the interval is 0.  When the recorded passes are over the
  loop is still running (\<open>Hang\<close>).
\<close>

fun capture_loop :: "nat \<Rightarrow> nat \<Rightarrow> cam_pass list \<Rightarrow> frame_queue \<Rightarrow> unit outcome \<times> frame_queue" where
  "capture_loop frame_interval frame_count [] q = (Hang, q)"
| "capture_loop frame_interval frame_count (ReadFails # rest) q = (Done (), q)"
| "capture_loop frame_interval frame_count (Shot time quit # rest) q =
     (if frame_interval = 0 then (Raised ''integer modulo by zero'', q)
      else if quit
        then (Done (), if frame_count mod frame_interval = 0
                       then q @ [Some (FrameData frame_count time)] else q)
        else capture_loop frame_interval (Suc frame_count) rest
               (if frame_count mod frame_interval = 0
                then q @ [Some (FrameData frame_count time)] else q))"

text \<open>
  \<open>capture_frames(output_folder, frame_queue, interval)\<close>.  A camera that does not open
  makes the function return at once; an exception in the loop is caught by the \<open>except\<close>
  around the whole body, which only prints; \<open>frame_queue.put(None)\<close> stands after the
  loop, inside the \<open>try\<close>.  The camera's frame rate is a whole number, 30 when it
  reports 0.
\<close>

definition capture_frames :: "camera_run \<Rightarrow> nat \<Rightarrow> frame_queue \<Rightarrow> unit outcome \<times> frame_queue" where
  "capture_frames cam interval q =
     (if \<not> opened cam then (Done (), q)
      else
        (case capture_loop ((if fps cam = 0 then 30 else fps cam) * interval) 0 (passes cam) q of
           (Done u, q1) \<Rightarrow> (Done (), q1 @ [None])
         | (Raised e, q1) \<Rightarrow> (Done (), q1)
         | (Hang, q1) \<Rightarrow> (Hang, q1)))"

text \<open>
  \<open>describe_frames\<close>: \<open>frame_queue.get()\<close> blocks on an empty queue.  \<open>describe\<close> is the
  remote model's description of one frame; when it raises, the inner \<open>except\<close> puts a
  fixed text on the page.  The result is the pages of the PDF written after the loop.
\<close>

fun describe_loop :: "(frame_data \<Rightarrow> exn + string) \<Rightarrow> frame_queue \<Rightarrow> string list
    \<Rightarrow> string list outcome \<times> frame_queue" where
  "describe_loop describe [] pages = (Hang, [])"
| "describe_loop describe (None # rest) pages = (Done pages, rest)"
| "describe_loop describe (Some frame_data # rest) pages =
     describe_loop describe rest
       (pages @ [case describe frame_data of
                   Inl e \<Rightarrow> ''Error generating description.''
                 | Inr description_text \<Rightarrow> description_text])"

definition describe_frames :: "(frame_data \<Rightarrow> exn + string) \<Rightarrow> frame_queue
    \<Rightarrow> string list outcome \<times> frame_queue" where
  "describe_frames describe q = describe_loop describe q []"


section \<open>Vocabulary of the statements\<close>

definition categories :: "category list" where
  "categories = [Scene, Sensory, Ocr, Sos, Navigation, Face]"

fun trigger_words :: "category \<Rightarrow> string list" where
  "trigger_words Scene = scene_trigger"
| "trigger_words Sensory = sensory_trigger"
| "trigger_words Ocr = ocr_trigger"
| "trigger_words Sos = sos_trigger"
| "trigger_words Navigation = nav_trigger"
| "trigger_words Face = face_trigger"

text \<open>The categories an utterance matches, in the order of the six \<open>if\<close> statements.\<close>

definition matched :: "string \<Rightarrow> category list" where
  "matched user_talk = filter (\<lambda>c. any_in (trigger_words c) user_talk) categories"

text \<open>The handlers entered during a stretch of a run, in order.\<close>

fun invoked :: "event list \<Rightarrow> category list" where
  "invoked [] = []"
| "invoked (Invoke c # es) = c # invoked es"
| "invoked (e # es) = invoked es"

text \<open>What the follow-up sub-session may emit: speech, and questions about its context.\<close>

fun follow_up_event :: "string option \<Rightarrow> event \<Rightarrow> bool" where
  "follow_up_event context (Speak text) = True"
| "follow_up_event context (Ask user_input c) = (c = context)"
| "follow_up_event context e = False"

text \<open>
  A step belongs to a category when it emits the category's handler entry exactly if the
  utterance matches the category's keywords, emits no other handler entry, never lets an
  exception escape, returns at once when the utterance does not match, and can be left
  waiting only in the two handlers that listen to the microphone.
\<close>

definition step_emits :: "category \<Rightarrow> string \<Rightarrow> (world \<Rightarrow> unit outcome \<times> world) \<Rightarrow> bool" where
  "step_emits c user_talk s =
     (\<forall>w r w'. s w = (r, w') \<longrightarrow>
        (\<exists>evs. trace w' = trace w @ evs
           \<and> invoked evs = (if any_in (trigger_words c) user_talk then [c] else [])
           \<and> (\<forall>e. r \<noteq> Raised e)
           \<and> (any_in (trigger_words c) user_talk \<or> r = Done ())
           \<and> (r = Hang \<longrightarrow> c = Sensory \<or> c = Face)))"

text \<open>An utterance that ends the follow-up sub-session.\<close>

definition says_exit :: "string option \<Rightarrow> bool" where
  "says_exit v = (truthy v \<and> contains ''exit'' (lower (the v)))"

text \<open>
  Recorded input that lets every handler of one pass come to its end: it holds an
  utterance that ends the follow-up sub-session, and at least one more result after the
  first such utterance, for the name face registration asks for.
\<close>

definition enough_input :: "string option list \<Rightarrow> bool" where
  "enough_input script =
     ((\<exists>v \<in> set script. says_exit v)
      \<and> tl (dropWhile (\<lambda>v. \<not> says_exit v) script) \<noteq> [])"

text \<open>
  The name field of a line as \<open>delete_face_registration\<close> reads it: the text before the
  first comma of the stripped line, stripped again.  A line is acceptable to the parser
  when it is blank or has a comma, and a line is kept by a deletion when it is not blank
  and its name field differs from the name given.
\<close>

definition name_field :: "string \<Rightarrow> string" where
  "name_field line = strip (takeWhile (\<lambda>c. c \<noteq> CHR '','') (strip line))"

definition entry_ok :: "string \<Rightarrow> bool" where
  "entry_ok line = (strip line = [] \<or> CHR '','' \<in> set (strip line))"

definition kept :: "string \<Rightarrow> string \<Rightarrow> bool" where
  "kept person_name line = (strip line \<noteq> [] \<and> name_field line \<noteq> person_name)"

text \<open>
  The log a deletion leaves according to the specification's words: the lines whose name
  field equals the name are removed, every other line stays as it is.
\<close>

definition claimed_log_after_delete :: "string \<Rightarrow> string \<Rightarrow> string" where
  "claimed_log_after_delete person_name content =
     concat (filter (\<lambda>line. name_field line \<noteq> person_name) (file_lines content))"

text \<open>The page \<open>describe_frames\<close> adds for one frame.\<close>

definition page_of :: "(frame_data \<Rightarrow> exn + string) \<Rightarrow> frame_data \<Rightarrow> string" where
  "page_of describe frame_data =
     (case describe frame_data of
        Inl e \<Rightarrow> ''Error generating description.''
      | Inr description_text \<Rightarrow> description_text)"

text \<open>A sample outside for the worked examples: cameras and services all answer.\<close>

definition demo_env :: env where
  "demo_env = \<lparr>cam_cfg = \<lparr>esp32_cam_url = ''http://192.168.168.232/cam-hi.jpg'', camera_index = 0\<rparr>,
     net_cam = (\<lambda>t. NetRaises ''timed out''),
     local_cam = (\<lambda>t. LocalImage (Frame t)),
     vision = (\<lambda>t c f. Inr ''a red mug''),
     genai = (\<lambda>t q. Inr ''about five dollars''),
     twilio = (\<lambda>t. Created ''SM1f0e2d3c''),
     face_cam = (\<lambda>t. Some (Frame t)),
     face_count = (\<lambda>t. 1),
     manual_entry = (\<lambda>t. Inr '' Carol ''),
     timestamp = (\<lambda>t. ''20240101_120000''),
     imwrite = (\<lambda>t. Inr True),
     log_open = (\<lambda>t. None),
     undeletable = {''known_image''},
     face_output_dir = ''known_image''\<rparr>"

definition demo_world :: "string option list \<Rightarrow> world" where
  "demo_world script = \<lparr>voice = script, clock = 0, trace = [], face_log = None, image_files = {}\<rparr>"


section \<open>What a run emits\<close>

lemma invoked_append [simp]: "invoked (xs @ ys) = invoked xs @ invoked ys"
  by (induction xs rule: invoked.induct) auto

lemma invoked_follow_up: "list_all (follow_up_event ctx) evs \<Longrightarrow> invoked evs = []"
  by (induction evs rule: invoked.induct) auto

lemma trace_speak_text [simp]: "trace (speak_text t w) = trace w @ [Speak t]"
  by (simp add: speak_text_def emit_def)

lemma trace_emit [simp]: "trace (emit e w) = trace w @ [e]"
  by (simp add: emit_def)

lemma trace_tick [simp]: "trace (tick w) = trace w"
  by (simp add: tick_def)

lemma trace_set_servo_angle [simp]: "trace (set_servo_angle a w) = trace w @ [Servo a]"
  by (simp add: set_servo_angle_def)

lemma trace_get_voice_input: "get_voice_input w = (r, w') \<Longrightarrow> trace w' = trace w"
  by (auto simp: get_voice_input_def tick_def split: list.splits)

lemma get_voice_input_not_Raised: "get_voice_input w \<noteq> (Raised e, w')"
  by (auto simp: get_voice_input_def split: list.splits)

lemma trace_capture_and_ask: "capture_and_ask env c w = (r, w') \<Longrightarrow> trace w' = trace w"
  by (auto simp: capture_and_ask_def split: sum.splits option.splits)

lemma generate_contextual_response_returns:
  "\<exists>s. generate_contextual_response model q ctx = Inr s"
  by (cases "model (the ctx @ [nl] @ ''User: '' @ q)")
     (simp_all add: generate_contextual_response_def try_except_def)

lemma send_sos_message_returns: "\<exists>s. send_sos_message t = Inr s"
  by (cases t) (simp_all add: send_sos_message_def try_except_def)

lemma follow_up_trace:
  "handle_follow_up_queries env ctx w = (r, w') \<Longrightarrow>
     \<exists>evs. trace w' = trace w @ evs \<and> list_all (follow_up_event ctx) evs \<and> (\<forall>e. r \<noteq> Raised e)"
proof (induction env ctx w arbitrary: r w' rule: handle_follow_up_queries.induct)
  case (1 env ctx w)
  let ?w0 = "speak_text ''You can ask follow-up questions or say 'exit' to end.'' w"
  obtain o1 w1 where gv: "get_voice_input ?w0 = (o1, w1)" by (cases "get_voice_input ?w0")
  then have t1: "trace w1 = trace w @ [Speak ''You can ask follow-up questions or say 'exit' to end.'']"
    by (simp add: trace_get_voice_input)
  show ?case
  proof (cases o1)
    case Hang
    with gv "1.prems" t1 show ?thesis
      by (auto simp: handle_follow_up_queries.simps [of env ctx w])
  next
    case (Raised e)
    with gv show ?thesis by (simp add: get_voice_input_not_Raised)
  next
    case (Done q)
    show ?thesis
    proof (cases "truthy q")
      case False
      with gv Done "1.prems" have
        "handle_follow_up_queries env ctx
           (speak_text ''No valid input detected. Please try again or say 'exit' to end.'' w1) = (r, w')"
        by (simp add: handle_follow_up_queries.simps [of env ctx w])
      from "1.IH"(2) [OF gv [symmetric] Done False this] t1 show ?thesis by auto
    next
      case True
      show ?thesis
      proof (cases "contains ''exit'' (lower (the q))")
        case True
        with gv Done \<open>truthy q\<close> "1.prems" t1 show ?thesis
          by (auto simp: handle_follow_up_queries.simps [of env ctx w])
      next
        case False
        obtain a where a: "generate_contextual_response (genai env (clock w1)) (lower (the q)) ctx = Inr a"
          using generate_contextual_response_returns by blast
        with gv Done \<open>truthy q\<close> False "1.prems" have
          "handle_follow_up_queries env ctx
             (speak_text a (tick (emit (Ask (lower (the q)) ctx) w1))) = (r, w')"
          by (simp add: handle_follow_up_queries.simps [of env ctx w])
        from "1.IH"(1) [OF gv [symmetric] Done \<open>truthy q\<close> False a this] t1 show ?thesis by auto
      qed
    qed
  qed
qed

lemma scene_step_emits: "step_emits Scene u (scene_step env u)"
  by (auto simp: step_emits_def scene_step_def analyze_scene_def
           split: if_splits prod.splits dest!: trace_capture_and_ask)

lemma sensory_step_emits: "step_emits Sensory u (sensory_step env u)"
  unfolding step_emits_def
proof (intro allI impI)
  fix w r w'
  assume s: "sensory_step env u w = (r, w')"
  show "\<exists>evs. trace w' = trace w @ evs
           \<and> invoked evs = (if any_in (trigger_words Sensory) u then [Sensory] else [])
           \<and> (\<forall>e. r \<noteq> Raised e)
           \<and> (any_in (trigger_words Sensory) u \<or> r = Done ())
           \<and> (r = Hang \<longrightarrow> Sensory = Sensory \<or> Sensory = Face)"
  proof (cases "any_in sensory_trigger u")
    case False
    with s show ?thesis by (auto simp: sensory_step_def)
  next
    case True
    obtain info w1 where ro: "recognize_object env w = (info, w1)" by (cases "recognize_object env w")
    then obtain evs1 where t1: "trace w1 = trace w @ evs1" and i1: "invoked evs1 = [Sensory]"
      by (auto simp: recognize_object_def split: prod.splits option.splits
               dest!: trace_capture_and_ask)
    show ?thesis
    proof (cases "truthy info")
      case False
      with s True ro t1 i1 show ?thesis by (auto simp: sensory_step_def)
    next
      case truthy: True
      with s True ro have "handle_follow_up_queries env info w1 = (r, w')"
        by (simp add: sensory_step_def)
      from follow_up_trace [OF this] obtain evs2 where
        "trace w' = trace w1 @ evs2" "list_all (follow_up_event info) evs2" "\<forall>e. r \<noteq> Raised e"
        by blast
      with t1 i1 True show ?thesis by (auto simp: invoked_follow_up)
    qed
  qed
qed

lemma ocr_step_emits: "step_emits Ocr u (ocr_step env u)"
  by (auto simp: step_emits_def ocr_step_def extract_text_from_image_def
           split: if_splits prod.splits option.splits dest!: trace_capture_and_ask)

lemma send_sos_message_not_Inl: "send_sos_message t \<noteq> Inl e"
  using send_sos_message_returns [of t] by auto

lemma sos_step_emits: "step_emits Sos u (sos_step env u)"
  by (auto simp: step_emits_def sos_step_def send_sos_message_not_Inl split: if_splits sum.splits)

lemma nav_step_emits: "step_emits Navigation u (nav_step env u)"
  by (auto simp: step_emits_def nav_step_def analyze_environment_def
           split: if_splits prod.splits option.splits dest!: trace_capture_and_ask)

lemma register_new_face_trace:
  "register_new_face env w = (r, w') \<Longrightarrow> trace w' = trace w @ [Invoke Face] \<and> (\<forall>e. r \<noteq> Raised e)"
  by (auto simp: register_new_face_def save_registration_def Let_def get_voice_input_def tick_def emit_def
           split: option.splits if_splits list.splits sum.splits)

lemma face_step_emits: "step_emits Face u (face_step env u)"
  by (auto simp: step_emits_def face_step_def
           split: if_splits prod.splits outcome.splits dest!: register_new_face_trace)

lemma run_steps_invoked:
  assumes "list_all2 (\<lambda>c s. step_emits c u s) cs ss"
  shows "run_steps ss w = (r, w') \<Longrightarrow>
     \<exists>evs. trace w' = trace w @ evs \<and> (\<forall>e. r \<noteq> Raised e)
        \<and> prefix (invoked evs) (filter (\<lambda>c. any_in (trigger_words c) u) cs)
        \<and> (r = Done () \<longrightarrow> invoked evs = filter (\<lambda>c. any_in (trigger_words c) u) cs)
        \<and> (r = Hang \<longrightarrow> invoked evs \<noteq> []
              \<and> (last (invoked evs) = Sensory \<or> last (invoked evs) = Face))"
  using assms
proof (induction arbitrary: w rule: list_all2_induct)
  case Nil
  then show ?case by auto
next
  case (Cons c cs s ss)
  obtain r1 w1 where s: "s w = (r1, w1)" by (cases "s w")
  from Cons.hyps(1) [unfolded step_emits_def, rule_format, OF s] obtain evs1 where
    e1: "trace w1 = trace w @ evs1"
        "invoked evs1 = (if any_in (trigger_words c) u then [c] else [])"
        "\<forall>e. r1 \<noteq> Raised e" "any_in (trigger_words c) u \<or> r1 = Done ()"
        "r1 = Hang \<longrightarrow> c = Sensory \<or> c = Face"
    by blast
  show ?case
  proof (cases r1)
    case Hang
    with s Cons.prems have "r = Hang" "w' = w1" by simp_all
    with e1 Hang show ?thesis by auto
  next
    case (Raised e)
    with e1 show ?thesis by simp
  next
    case (Done x)
    with s Cons.prems have "run_steps ss w1 = (r, w')" by simp
    from Cons.IH [OF this] obtain evs2 where
      "trace w' = trace w1 @ evs2" "\<forall>e. r \<noteq> Raised e"
      "prefix (invoked evs2) (filter (\<lambda>c. any_in (trigger_words c) u) cs)"
      "r = Done () \<longrightarrow> invoked evs2 = filter (\<lambda>c. any_in (trigger_words c) u) cs"
      "r = Hang \<longrightarrow> invoked evs2 \<noteq> []
          \<and> (last (invoked evs2) = Sensory \<or> last (invoked evs2) = Face)"
      by blast
    with e1 show ?thesis by (intro exI [of _ "evs1 @ evs2"]) auto
  qed
qed

lemma dispatch_invoked:
  assumes "dispatch env u w = (r, w')"
  shows "\<exists>evs. trace w' = trace w @ evs \<and> (\<forall>e. r \<noteq> Raised e)
        \<and> prefix (invoked evs) (matched u)
        \<and> (r = Done () \<longrightarrow> invoked evs = matched u)
        \<and> (r = Hang \<longrightarrow> invoked evs \<noteq> []
              \<and> (last (invoked evs) = Sensory \<or> last (invoked evs) = Face))"
proof -
  have "list_all2 (\<lambda>c s. step_emits c u s) categories
          [scene_step env u, sensory_step env u, ocr_step env u,
           sos_step env u, nav_step env u, face_step env u]"
    by (simp add: categories_def scene_step_emits sensory_step_emits ocr_step_emits
          sos_step_emits nav_step_emits face_step_emits)
  from run_steps_invoked [OF this assms [unfolded dispatch_def]]
  show ?thesis by (simp add: matched_def)
qed

lemma get_voice_input_Cons:
  "voice w = v # rest \<Longrightarrow> get_voice_input w = (Done v, tick (w\<lparr>voice := rest\<rparr>))"
  by (simp add: get_voice_input_def)

lemma in_categories: "c \<in> set categories"
  by (cases c) (simp_all add: categories_def)

lemma set_matched: "c \<in> set (matched u) \<longleftrightarrow> any_in (trigger_words c) u"
  by (simp add: matched_def in_categories)

lemma matched_empty: "matched [] = []"
  by (simp add: matched_def categories_def any_in_def scene_trigger_def sensory_trigger_def
        ocr_trigger_def sos_trigger_def nav_trigger_def face_trigger_def)

lemma scene_step_returns: "\<exists>w'. scene_step env u w = (Done (), w')"
  by (auto simp: scene_step_def split: prod.splits)

lemma ocr_step_returns: "\<exists>w'. ocr_step env u w = (Done (), w')"
  by (auto simp: ocr_step_def split: prod.splits)

lemma sos_step_returns: "\<exists>w'. sos_step env u w = (Done (), w')"
  by (auto simp: sos_step_def send_sos_message_not_Inl split: sum.splits)

lemma nav_step_returns: "\<exists>w'. nav_step env u w = (Done (), w')"
  by (auto simp: nav_step_def split: prod.splits)

lemma dispatch_returns:
  assumes "\<not> any_in sensory_trigger u" "\<not> any_in face_trigger u"
  shows "\<exists>w'. dispatch env u w = (Done (), w')"
proof -
  obtain w1 where 1: "scene_step env u w = (Done (), w1)" using scene_step_returns by blast
  have 2: "sensory_step env u w1 = (Done (), w1)" using assms by (simp add: sensory_step_def)
  obtain w3 where 3: "ocr_step env u w1 = (Done (), w3)" using ocr_step_returns by blast
  obtain w4 where 4: "sos_step env u w3 = (Done (), w4)" using sos_step_returns by blast
  obtain w5 where 5: "nav_step env u w4 = (Done (), w5)" using nav_step_returns by blast
  have 6: "face_step env u w5 = (Done (), w5)" using assms by (simp add: face_step_def)
  show ?thesis by (simp add: dispatch_def 1 2 3 4 5 6)
qed

text \<open>The definitions a concrete run is evaluated with.\<close>

lemmas run_defs =
  cycle_def dispatch_def scene_step_def sensory_step_def ocr_step_def sos_step_def nav_step_def
  face_step_def analyze_scene_def recognize_object_def extract_text_from_image_def
  analyze_environment_def capture_and_ask_def get_frame_def fetch_esp32_def read_local_def
  try_except_def send_sos_message_def generate_contextual_response_def register_new_face_def
  save_registration_def os_path_join_def append_log_def get_voice_input_def speak_text_def
  set_servo_angle_def emit_def tick_def truthy_def any_in_def scene_trigger_def
  sensory_trigger_def ocr_trigger_def sos_trigger_def nav_trigger_def face_trigger_def
  lower_def lower_char_def upper_letters_def lower_letters_def
  demo_env_def demo_world_def Let_def

lemma contains_Nil: "contains needle [] \<longleftrightarrow> needle = []"
  by simp

lemma listen_loop_Return:
  "cycle env w = (Done Return, w') \<Longrightarrow> listen_loop env w = (Done (), w')"
  by (simp add: listen_loop.simps [of env w])

lemma listen_loop_Continue:
  "cycle env w = (Done Continue, w') \<Longrightarrow> listen_loop env w = listen_loop env w'"
  by (simp add: listen_loop.simps [of env w])

lemma cycle_exit:
  assumes "voice w = Some u # rest" "contains ''exit'' u"
    and "dispatch env u (tick (w\<lparr>voice := rest\<rparr>)) = (Done (), w2)"
  shows "cycle env w = (Done Return, speak_text ''Exiting now.'' w2)"
proof -
  from assms(2) have "u \<noteq> []" by auto
  with assms show ?thesis by (simp add: cycle_def get_voice_input_Cons truthy_def)
qed

lemma cycle_no_exit:
  assumes "voice w = Some u # rest" "\<not> contains ''exit'' u" "cycle env w = (r, w')"
  shows "r \<noteq> Done Return"
  using assms
  by (auto simp: cycle_def get_voice_input_Cons split: if_splits prod.splits outcome.splits)

lemma cycle_no_exit_Continue:
  assumes "voice w = Some u # rest" "\<not> contains ''exit'' u" "u \<noteq> []"
    and "dispatch env u (tick (w\<lparr>voice := rest\<rparr>)) = (Done (), w2)"
  shows "cycle env w = (Done Continue, w2)"
  using assms by (simp add: cycle_def get_voice_input_Cons truthy_def)

lemma listen_loop_no_input:
  "\<forall>v \<in> set (voice w). v = None \<or> v = Some '''' \<Longrightarrow>
     \<exists>w'. listen_loop env w = (Hang, w') \<and> invoked (trace w') = invoked (trace w)"
proof (induction "voice w" arbitrary: w)
  case Nil
  then have "cycle env w = (Hang, w)" by (simp add: cycle_def get_voice_input_def)
  then show ?case by (simp add: listen_loop.simps [of env w])
next
  case (Cons v rest)
  let ?w1 = "speak_text ''No Input'' (tick (w\<lparr>voice := rest\<rparr>))"
  from Cons.hyps(2) [symmetric] Cons.prems have nv: "\<not> truthy v"
    by (auto simp: truthy_def)
  with Cons.hyps(2) [symmetric] have c: "cycle env w = (Done Continue, ?w1)"
    by (simp add: cycle_def get_voice_input_Cons)
  have "rest = voice ?w1" by simp
  moreover have "\<forall>v \<in> set (voice ?w1). v = None \<or> v = Some ''''"
    using Cons.hyps(2) [symmetric] Cons.prems by simp
  ultimately obtain w' where "listen_loop env ?w1 = (Hang, w')"
    "invoked (trace w') = invoked (trace ?w1)"
    using Cons.hyps(1) by blast
  with c show ?case by (simp add: listen_loop.simps [of env w])
qed


section \<open>How a pass through the loop ends\<close>

lemma voice_after_listening:
  "get_voice_input (speak_text t w) = (Done v, w1) \<Longrightarrow> voice w = v # voice w1"
  by (auto simp: get_voice_input_def split: list.splits)

lemma follow_up_Nil:
  "voice w = [] \<Longrightarrow>
   handle_follow_up_queries env ctx w
     = (Hang, speak_text ''You can ask follow-up questions or say 'exit' to end.'' w)"
  by (simp add: handle_follow_up_queries.simps [of env ctx w] get_voice_input_def)

lemma follow_up_retry:
  assumes "get_voice_input (speak_text ''You can ask follow-up questions or say 'exit' to end.'' w)
             = (Done v, w1)" "\<not> truthy v"
  shows "handle_follow_up_queries env ctx w
     = handle_follow_up_queries env ctx
         (speak_text ''No valid input detected. Please try again or say 'exit' to end.'' w1)"
  using assms by (simp add: handle_follow_up_queries.simps [of env ctx w])

lemma follow_up_exit:
  assumes "get_voice_input (speak_text ''You can ask follow-up questions or say 'exit' to end.'' w)
             = (Done v, w1)" "truthy v" "contains ''exit'' (lower (the v))"
  shows "handle_follow_up_queries env ctx w = (Done (), speak_text ''Exiting follow-up session.'' w1)"
  using assms by (simp add: handle_follow_up_queries.simps [of env ctx w])

lemma follow_up_answer:
  assumes "get_voice_input (speak_text ''You can ask follow-up questions or say 'exit' to end.'' w)
             = (Done v, w1)" "truthy v" "\<not> contains ''exit'' (lower (the v))"
  shows "\<exists>answer. generate_contextual_response (genai env (clock w1)) (lower (the v)) ctx = Inr answer
           \<and> handle_follow_up_queries env ctx w
             = handle_follow_up_queries env ctx
                 (speak_text answer (tick (emit (Ask (lower (the v)) ctx) w1)))"
proof -
  obtain answer where
    "generate_contextual_response (genai env (clock w1)) (lower (the v)) ctx = Inr answer"
    using generate_contextual_response_returns by blast
  with assms show ?thesis by (simp add: handle_follow_up_queries.simps [of env ctx w])
qed

lemma follow_up_result:
  "\<exists>w'. handle_follow_up_queries env ctx w
          = ((if \<exists>v \<in> set (voice w). says_exit v then Done () else Hang), w')
        \<and> voice w' = (if \<exists>v \<in> set (voice w). says_exit v
                      then tl (dropWhile (\<lambda>v. \<not> says_exit v) (voice w)) else [])"
proof (induction "voice w" arbitrary: w)
  case Nil
  then show ?case by (simp add: follow_up_Nil [OF Nil [symmetric]])
next
  case (Cons v rest)
  let ?w1 = "tick ((speak_text ''You can ask follow-up questions or say 'exit' to end.'' w)\<lparr>voice := rest\<rparr>)"
  have gv: "get_voice_input (speak_text ''You can ask follow-up questions or say 'exit' to end.'' w)
              = (Done v, ?w1)"
    using Cons.hyps(2) [symmetric] by (simp add: get_voice_input_def)
  have vw: "voice w = v # rest" using Cons.hyps(2) by simp
  have step: ?case
    if h: "handle_follow_up_queries env ctx w = handle_follow_up_queries env ctx w2"
      and v2: "voice w2 = rest" and nse: "\<not> says_exit v" for w2
  proof -
    from Cons.hyps(1) [of w2] v2 obtain w' where
      "handle_follow_up_queries env ctx w2
          = ((if \<exists>v \<in> set rest. says_exit v then Done () else Hang), w')"
      "voice w' = (if \<exists>v \<in> set rest. says_exit v
                      then tl (dropWhile (\<lambda>v. \<not> says_exit v) rest) else [])"
      by auto
    with h nse vw show ?thesis by auto
  qed
  show ?case
  proof (cases "truthy v")
    case False
    let ?w2 = "speak_text ''No valid input detected. Please try again or say 'exit' to end.'' ?w1"
    from False have "\<not> says_exit v" by (simp add: says_exit_def)
    from step [OF follow_up_retry [OF gv False] _ this] show ?thesis by simp
  next
    case True
    show ?thesis
    proof (cases "contains ''exit'' (lower (the v))")
      case True
      with \<open>truthy v\<close> have "says_exit v" by (simp add: says_exit_def)
      with follow_up_exit [OF gv \<open>truthy v\<close> True, of env ctx] vw
      show ?thesis by simp
    next
      case False
      from follow_up_answer [OF gv True False, of env ctx] obtain answer where
        h: "handle_follow_up_queries env ctx w
             = handle_follow_up_queries env ctx
                 (speak_text answer (tick (emit (Ask (lower (the v)) ctx) ?w1)))"
        by blast
      from False have "\<not> says_exit v" by (simp add: says_exit_def)
      from step [OF h _ this] show ?thesis by simp
    qed
  qed
qed

lemma contains_subset: "contains needle hay \<Longrightarrow> set needle \<subseteq> set hay"
proof (induction hay)
  case Nil
  then show ?case by simp
next
  case (Cons c cs)
  from Cons.prems have "prefix needle (c # cs) \<or> contains needle cs" by simp
  then show ?case
  proof
    assume "prefix needle (c # cs)"
    then show ?thesis by (rule set_mono_prefix)
  next
    assume "contains needle cs"
    with Cons.IH show ?thesis by auto
  qed
qed

lemma no_lowercase_no_keyword:
  assumes "set u \<inter> set lower_letters = {}" "kw \<noteq> []" "hd kw \<in> set lower_letters"
  shows "\<not> contains kw u"
proof
  assume "contains kw u"
  then have "set kw \<subseteq> set u" by (rule contains_subset)
  moreover from assms(2) have "hd kw \<in> set kw" by simp
  ultimately show False using assms(1,3) by auto
qed

lemma no_lowercase_matched:
  assumes "set u \<inter> set lower_letters = {}"
  shows "matched u = []" "\<not> contains ''exit'' u"
proof -
  have k: "\<not> contains kw u" if "kw \<noteq> []" "hd kw \<in> set lower_letters" for kw
    using no_lowercase_no_keyword [OF assms that] .
  have "\<not> any_in (trigger_words c) u" for c
    by (cases c)
       (simp_all add: any_in_def scene_trigger_def sensory_trigger_def ocr_trigger_def
          sos_trigger_def nav_trigger_def face_trigger_def k lower_letters_def)
  then show "matched u = []" by (simp add: matched_def)
  show "\<not> contains ''exit'' u" by (rule k) (simp_all add: lower_letters_def)
qed

lemma dispatch_unmatched:
  assumes "matched u = []"
  shows "dispatch env u w = (Done (), w)"
proof -
  have "\<not> any_in (trigger_words c) u" for c
    using assms set_matched [of c u] by simp
  from this [of Scene] this [of Sensory] this [of Ocr] this [of Sos] this [of Navigation]
    this [of Face]
  show ?thesis
    by (simp add: dispatch_def scene_step_def sensory_step_def ocr_step_def sos_step_def
          nav_step_def face_step_def)
qed

lemma voice_scene_step_eq: "scene_step env u w = (r, w') \<Longrightarrow> voice w' = voice w"
  by (auto simp: scene_step_def analyze_scene_def split: if_splits prod.splits
           dest!: voice_capture_and_ask)

lemma voice_ocr_step_eq: "ocr_step env u w = (r, w') \<Longrightarrow> voice w' = voice w"
  by (auto simp: ocr_step_def extract_text_from_image_def split: if_splits prod.splits option.splits
           dest!: voice_capture_and_ask)

lemma voice_sos_step_eq: "sos_step env u w = (r, w') \<Longrightarrow> voice w' = voice w"
  by (auto simp: sos_step_def split: if_splits sum.splits)

lemma voice_nav_step_eq: "nav_step env u w = (r, w') \<Longrightarrow> voice w' = voice w"
  by (auto simp: nav_step_def analyze_environment_def split: if_splits prod.splits option.splits
           dest!: voice_capture_and_ask)

lemma voice_recognize_object: "recognize_object env w = (r, w') \<Longrightarrow> voice w' = voice w"
  by (auto simp: recognize_object_def split: prod.splits option.splits
           dest!: voice_capture_and_ask)

lemma sensory_step_enough:
  assumes "\<exists>v \<in> set (voice w). says_exit v"
  shows "\<exists>w'. sensory_step env u w = (Done (), w')
           \<and> (voice w' = voice w \<or> voice w' = tl (dropWhile (\<lambda>v. \<not> says_exit v) (voice w)))"
proof (cases "any_in sensory_trigger u")
  case False
  then show ?thesis by (simp add: sensory_step_def)
next
  case True
  obtain info w1 where ro: "recognize_object env w = (info, w1)" by (cases "recognize_object env w")
  then have v1: "voice w1 = voice w" by (rule voice_recognize_object)
  show ?thesis
  proof (cases "truthy info")
    case False
    with True ro v1 show ?thesis by (simp add: sensory_step_def)
  next
    case truthy: True
    from follow_up_result [of env info w1] assms v1 obtain w' where
      "handle_follow_up_queries env info w1 = (Done (), w')"
      "voice w' = tl (dropWhile (\<lambda>v. \<not> says_exit v) (voice w))"
      by auto
    with True ro truthy show ?thesis by (simp add: sensory_step_def)
  qed
qed

lemma save_registration_returns: "\<exists>r w'. save_registration env n w = (Done r, w')"
  by (auto simp: save_registration_def Let_def split: sum.splits option.splits)

lemma register_new_face_enough:
  assumes "voice w \<noteq> []"
  shows "\<exists>r w'. register_new_face env w = (Done r, w')"
proof -
  from assms obtain v vs where v: "voice w = v # vs" by (cases "voice w") auto
  have gv: "get_voice_input (tick (emit (Invoke Face) w))
              = (Done v, tick ((tick (emit (Invoke Face) w))\<lparr>voice := vs\<rparr>))"
    using v by (simp add: get_voice_input_def)
  show ?thesis
    using save_registration_returns [of env]
    by (simp add: register_new_face_def Let_def gv split: option.splits sum.splits)
qed

lemma face_step_enough:
  assumes "voice w \<noteq> []"
  shows "\<exists>w'. face_step env u w = (Done (), w')"
proof (cases "any_in face_trigger u")
  case False
  then show ?thesis by (simp add: face_step_def)
next
  case True
  from register_new_face_enough [of "set_servo_angle 90 w" env] assms obtain r w1 where
    "register_new_face env (set_servo_angle 90 w) = (Done r, w1)" by auto
  with True show ?thesis by (simp add: face_step_def)
qed

lemma dispatch_enough:
  assumes "enough_input (voice w)"
  shows "\<exists>w'. dispatch env u w = (Done (), w')"
proof -
  from assms have ex: "\<exists>v \<in> set (voice w). says_exit v"
    and tl: "tl (dropWhile (\<lambda>v. \<not> says_exit v) (voice w)) \<noteq> []"
    by (simp_all add: enough_input_def)
  from ex have ne: "voice w \<noteq> []" by auto
  obtain w1 where 1: "scene_step env u w = (Done (), w1)" using scene_step_returns by blast
  then have v1: "voice w1 = voice w" by (rule voice_scene_step_eq)
  from sensory_step_enough [of w1 env u] ex v1 obtain w2 where
    2: "sensory_step env u w1 = (Done (), w2)"
    and v2: "voice w2 = voice w \<or> voice w2 = tl (dropWhile (\<lambda>v. \<not> says_exit v) (voice w))"
    by auto
  from v2 ne tl have n2: "voice w2 \<noteq> []" by auto
  obtain w3 where 3: "ocr_step env u w2 = (Done (), w3)" using ocr_step_returns by blast
  obtain w4 where 4: "sos_step env u w3 = (Done (), w4)" using sos_step_returns by blast
  obtain w5 where 5: "nav_step env u w4 = (Done (), w5)" using nav_step_returns by blast
  from voice_ocr_step_eq [OF 3] voice_sos_step_eq [OF 4] voice_nav_step_eq [OF 5] n2
  have "voice w5 \<noteq> []" by simp
  from face_step_enough [OF this] obtain w6 where 6: "face_step env u w5 = (Done (), w6)" by blast
  show ?thesis by (simp add: dispatch_def 1 2 3 4 5 6)
qed

lemma cycle_enough:
  assumes "voice w = Some u # rest" "enough_input rest" "cycle env w = (r, w')"
  shows "r \<noteq> Hang"
proof -
  from dispatch_enough [of "tick (w\<lparr>voice := rest\<rparr>)" env u] assms(2) obtain w2 where
    "dispatch env u (tick (w\<lparr>voice := rest\<rparr>)) = (Done (), w2)" by auto
  with assms(1,3) show ?thesis
    by (auto simp: cycle_def get_voice_input_Cons split: if_splits)
qed

lemma cycle_not_selective:
  assumes "voice w = Some u # rest" "\<not> any_in sensory_trigger u" "\<not> any_in face_trigger u"
    "cycle env w = (r, w')"
  shows "r \<noteq> Hang"
proof -
  from dispatch_returns [OF assms(2,3)] obtain w2 where
    "dispatch env u (tick (w\<lparr>voice := rest\<rparr>)) = (Done (), w2)" by blast
  with assms(1,4) show ?thesis
    by (auto simp: cycle_def get_voice_input_Cons split: if_splits)
qed

lemma cycle_outcome:
  assumes v: "voice w = Some u # rest" and c: "cycle env w = (r, w')"
  shows "\<exists>evs. trace w' = trace w @ evs \<and> (\<forall>e. r \<noteq> Raised e)
          \<and> prefix (invoked evs) (matched u)
          \<and> (r \<noteq> Hang \<longrightarrow> invoked evs = matched u
                \<and> (contains ''exit'' u \<longrightarrow> r = Done Return
                      \<and> (\<exists>evs0. evs = evs0 @ [Speak ''Exiting now.'']
                            \<and> invoked evs0 = matched u))
                \<and> (\<not> contains ''exit'' u \<longrightarrow> r = Done Continue))
          \<and> (r = Hang \<longrightarrow> invoked evs \<noteq> []
                \<and> (last (invoked evs) = Sensory \<or> last (invoked evs) = Face))"
proof (cases "u = []")
  case True
  with v c have "w' = speak_text ''No Input'' (tick (w\<lparr>voice := rest\<rparr>))" "r = Done Continue"
    by (simp_all add: cycle_def get_voice_input_Cons truthy_def)
  with True show ?thesis by (simp add: matched_empty)
next
  case False
  let ?w1 = "tick (w\<lparr>voice := rest\<rparr>)"
  obtain r2 w2 where d: "dispatch env u ?w1 = (r2, w2)" by (cases "dispatch env u ?w1")
  from dispatch_invoked [OF d] obtain evs where
    evs: "trace w2 = trace w @ evs" "\<forall>e. r2 \<noteq> Raised e" "prefix (invoked evs) (matched u)"
         "r2 = Done () \<longrightarrow> invoked evs = matched u"
         "r2 = Hang \<longrightarrow> invoked evs \<noteq> [] \<and> (last (invoked evs) = Sensory \<or> last (invoked evs) = Face)"
    by auto
  show ?thesis
  proof (cases r2)
    case Hang
    with v c d False have "r = Hang" "w' = w2"
      by (simp_all add: cycle_def get_voice_input_Cons truthy_def)
    with evs Hang show ?thesis by auto
  next
    case (Raised e)
    with evs show ?thesis by simp
  next
    case (Done x)
    show ?thesis
    proof (cases "contains ''exit'' u")
      case True
      with v c d False Done have "r = Done Return" "w' = speak_text ''Exiting now.'' w2"
        by (simp_all add: cycle_def get_voice_input_Cons truthy_def)
      with evs Done True show ?thesis
        by (intro exI [of _ "evs @ [Speak ''Exiting now.'']"]) simp
    next
      case no_exit: False
      with v c d False Done have "r = Done Continue" "w' = w2"
        by (simp_all add: cycle_def get_voice_input_Cons truthy_def)
      with evs Done no_exit show ?thesis by auto
    qed
  qed
qed


section \<open>One cycle of the dispatcher\<close>

text \<open>
  Claim C1.  Let one pass of the loop hear the utterance \<open>user_talk\<close>.  No exception
  leaves the pass.  The handlers entered during the pass, in the order they are entered,
  always form an initial part of the list of the categories one of whose keywords occurs
  in \<open>user_talk\<close> (case-sensitive substring test), taken in the order scene, object, ocr,
  sos, navigation, face.  When the pass comes to its end they are exactly that list, so
  a category's handler is entered if and only if one of its keywords occurs in
  \<open>user_talk\<close>.  A pass that has not come to its end is waiting inside the handler it
  entered last, which is the object handler (in its follow-up sub-session) or face
  registration, the two that listen to the microphone.  The pass comes to its end
  whenever neither of the two is matched, and whenever the recorded input that follows
  holds an utterance ending the sub-session and one more result after it.
\<close>

theorem cycle_invokes_matched_handlers:
  assumes "voice w = Some user_talk # rest" and "cycle env w = (r, w')"
  shows "\<exists>evs. trace w' = trace w @ evs
          \<and> (\<forall>e. r \<noteq> Raised e)
          \<and> prefix (invoked evs)
               (filter (\<lambda>c. any_in (trigger_words c) user_talk)
                  [Scene, Sensory, Ocr, Sos, Navigation, Face])
          \<and> (r \<noteq> Hang \<longrightarrow>
                invoked evs = filter (\<lambda>c. any_in (trigger_words c) user_talk)
                                [Scene, Sensory, Ocr, Sos, Navigation, Face]
                \<and> (\<forall>c. c \<in> set (invoked evs) \<longleftrightarrow> any_in (trigger_words c) user_talk))
          \<and> (r = Hang \<longrightarrow>
                invoked evs \<noteq> [] \<and> (last (invoked evs) = Sensory \<or> last (invoked evs) = Face))
          \<and> (enough_input rest \<longrightarrow> r \<noteq> Hang)
          \<and> (\<not> any_in sensory_trigger user_talk \<and> \<not> any_in face_trigger user_talk \<longrightarrow> r \<noteq> Hang)"
proof -
  from cycle_outcome [OF assms] obtain evs where
    evs: "trace w' = trace w @ evs" "\<forall>e. r \<noteq> Raised e" "prefix (invoked evs) (matched user_talk)"
         "r \<noteq> Hang \<longrightarrow> invoked evs = matched user_talk"
         "r = Hang \<longrightarrow> invoked evs \<noteq> [] \<and> (last (invoked evs) = Sensory \<or> last (invoked evs) = Face)"
    by blast
  have e: "r \<noteq> Hang" if "enough_input rest"
    using cycle_enough [OF assms(1) that assms(2)] .
  have n: "r \<noteq> Hang" if "\<not> any_in sensory_trigger user_talk" "\<not> any_in face_trigger user_talk"
    using cycle_not_selective [OF assms(1) that assms(2)] .
  have "\<forall>c. c \<in> set (invoked evs) \<longleftrightarrow> any_in (trigger_words c) user_talk" if "r \<noteq> Hang"
    using that evs(4) by (simp add: set_matched)
  with evs e n show ?thesis
    unfolding matched_def categories_def by blast
qed

theorem cycle_invokes_matched_handlers_witness:
  "voice (demo_world [Some ''search and register'', Some ''How much is it'', Some ''EXIT please'',
                      Some ''Dana'', None])
     = Some ''search and register'' # [Some ''How much is it'', Some ''EXIT please'', Some ''Dana'', None]
   \<and> enough_input [Some ''How much is it'', Some ''EXIT please'', Some ''Dana'', None]
   \<and> filter (\<lambda>c. any_in (trigger_words c) ''search and register'')
        [Scene, Sensory, Ocr, Sos, Navigation, Face] = [Sensory, Face]
   \<and> cycle demo_env
        (demo_world [Some ''search and register'', Some ''How much is it'', Some ''EXIT please'',
                     Some ''Dana'', None])
      = (Done Continue,
         \<lparr>voice = [None], clock = 9,
          trace = [Invoke Sensory, Speak ''a red mug'',
                   Speak ''You can ask follow-up questions or say 'exit' to end.'',
                   Ask ''how much is it'' (Some ''a red mug''), Speak ''about five dollars'',
                   Speak ''You can ask follow-up questions or say 'exit' to end.'',
                   Speak ''Exiting follow-up session.'',
                   Servo 90, Invoke Face, Speak ''Face registered as Dana''],
          face_log = Some (Inr (''Dana, known_image/Dana_20240101_120000.jpg'' @ [nl])),
          image_files = {''known_image/Dana_20240101_120000.jpg''}\<rparr>)
   \<and> (\<exists>evs. [Invoke Sensory, Speak ''a red mug'',
                   Speak ''You can ask follow-up questions or say 'exit' to end.'',
                   Ask ''how much is it'' (Some ''a red mug''), Speak ''about five dollars'',
                   Speak ''You can ask follow-up questions or say 'exit' to end.'',
                   Speak ''Exiting follow-up session.'',
                   Servo 90, Invoke Face, Speak ''Face registered as Dana''] = evs
          \<and> invoked evs = [Sensory, Face])
   \<and> cycle demo_env (demo_world [Some ''search and register'', Some ''How much is it''])
      = (Hang,
         \<lparr>voice = [], clock = 4,
          trace = [Invoke Sensory, Speak ''a red mug'',
                   Speak ''You can ask follow-up questions or say 'exit' to end.'',
                   Ask ''how much is it'' (Some ''a red mug''), Speak ''about five dollars'',
                   Speak ''You can ask follow-up questions or say 'exit' to end.''],
          face_log = None, image_files = {}\<rparr>)"
proof -
  let ?rest = "[Some ''How much is it'', Some ''EXIT please'', Some ''Dana'', None]"
  let ?w = "demo_world [Some ''search and register'', Some ''How much is it'', Some ''EXIT please'',
                     Some ''Dana'', None]"
  let ?u = "demo_world [Some ''search and register'', Some ''How much is it'']"
  let ?evs = "[Invoke Sensory, Speak ''a red mug'',
                   Speak ''You can ask follow-up questions or say 'exit' to end.'',
                   Ask ''how much is it'' (Some ''a red mug''), Speak ''about five dollars'',
                   Speak ''You can ask follow-up questions or say 'exit' to end.'',
                   Speak ''Exiting follow-up session.'',
                   Servo 90, Invoke Face, Speak ''Face registered as Dana'']"
  have v: "voice ?w = Some ''search and register'' # ?rest" by (simp add: demo_world_def)
  have en: "enough_input ?rest" by (simp add: enough_input_def says_exit_def run_defs)
  have m: "filter (\<lambda>c. any_in (trigger_words c) ''search and register'')
        [Scene, Sensory, Ocr, Sos, Navigation, Face] = [Sensory, Face]"
    by (simp add: run_defs)
  have c: "cycle demo_env ?w
      = (Done Continue,
         \<lparr>voice = [None], clock = 9, trace = ?evs,
          face_log = Some (Inr (''Dana, known_image/Dana_20240101_120000.jpg'' @ [nl])),
          image_files = {''known_image/Dana_20240101_120000.jpg''}\<rparr>)"
    by (simp add: run_defs handle_follow_up_queries.simps)
  have h: "cycle demo_env ?u
      = (Hang,
         \<lparr>voice = [], clock = 4,
          trace = [Invoke Sensory, Speak ''a red mug'',
                   Speak ''You can ask follow-up questions or say 'exit' to end.'',
                   Ask ''how much is it'' (Some ''a red mug''), Speak ''about five dollars'',
                   Speak ''You can ask follow-up questions or say 'exit' to end.''],
          face_log = None, image_files = {}\<rparr>)"
    by (simp add: run_defs handle_follow_up_queries.simps)
  from cycle_invokes_matched_handlers [OF v c] en m
  have "\<exists>evs. ?evs = evs \<and> invoked evs = [Sensory, Face]"
    by (auto simp: demo_world_def)
  then have i: "\<exists>evs. ?evs = evs \<and> invoked evs = [Sensory, Face]" .
  show ?thesis
    by (intro conjI) (rule v, rule en, rule m, rule c, rule i, rule h)
qed


section \<open>Leaving the session\<close>

text \<open>
  Claim C2.  Let one pass of the loop hear the utterance \<open>user_talk\<close>.  If it contains
  \<open>exit\<close>, the pass either returns from \<open>start\<close>'s loop or is still waiting in a handler;
  when the dispatch returns, the farewell is spoken after everything the dispatch
  emitted, all matched handlers included, and the loop returns.  The dispatch returns
  whenever no handler that listens to the microphone is matched, and whenever the
  recorded input that follows is enough for those handlers.  If the utterance does not
  contain \<open>exit\<close>, the pass never returns from the loop, and when it ends the loop goes on
  listening from the state the dispatch left.
\<close>

theorem exit_after_dispatch:
  assumes "voice w = Some user_talk # rest"
  shows "(contains ''exit'' user_talk \<longrightarrow>
            (\<forall>w2. dispatch env user_talk (tick (w\<lparr>voice := rest\<rparr>)) = (Done (), w2) \<longrightarrow>
                cycle env w = (Done Return, speak_text ''Exiting now.'' w2)
              \<and> listen_loop env w = (Done (), speak_text ''Exiting now.'' w2)
              \<and> (\<exists>evs. trace (speak_text ''Exiting now.'' w2)
                          = trace w @ evs @ [Speak ''Exiting now.'']
                        \<and> invoked evs = matched user_talk))
          \<and> (\<not> any_in sensory_trigger user_talk \<and> \<not> any_in face_trigger user_talk \<longrightarrow>
                (\<exists>w2. listen_loop env w = (Done (), speak_text ''Exiting now.'' w2)))
          \<and> (enough_input rest \<longrightarrow>
                (\<exists>w2 evs. listen_loop env w = (Done (), speak_text ''Exiting now.'' w2)
                   \<and> trace (speak_text ''Exiting now.'' w2)
                       = trace w @ evs @ [Speak ''Exiting now.'']
                   \<and> invoked evs = matched user_talk))
          \<and> (\<forall>r w'. cycle env w = (r, w') \<longrightarrow>
                r = Done Return \<or> r = Hang))
       \<and> (\<not> contains ''exit'' user_talk \<longrightarrow>
            (\<forall>r w'. cycle env w = (r, w') \<longrightarrow>
                r \<noteq> Done Return
              \<and> (r = Done Continue \<longrightarrow> listen_loop env w = listen_loop env w'))
          \<and> (\<forall>w2. user_talk \<noteq> [] \<and> dispatch env user_talk (tick (w\<lparr>voice := rest\<rparr>)) = (Done (), w2) \<longrightarrow>
                cycle env w = (Done Continue, w2) \<and> listen_loop env w = listen_loop env w2))"
proof (intro conjI impI allI)
  fix w2
  assume ex: "contains ''exit'' user_talk"
    and d: "dispatch env user_talk (tick (w\<lparr>voice := rest\<rparr>)) = (Done (), w2)"
  show c: "cycle env w = (Done Return, speak_text ''Exiting now.'' w2)"
    by (rule cycle_exit [OF assms ex d])
  then show "listen_loop env w = (Done (), speak_text ''Exiting now.'' w2)"
    by (rule listen_loop_Return)
  from dispatch_invoked [OF d] obtain evs where
    "trace w2 = trace w @ evs" "invoked evs = matched user_talk" by auto
  then show "\<exists>evs. trace (speak_text ''Exiting now.'' w2) = trace w @ evs @ [Speak ''Exiting now.'']
                 \<and> invoked evs = matched user_talk"
    by auto
next
  assume ex: "contains ''exit'' user_talk"
    and nv: "\<not> any_in sensory_trigger user_talk \<and> \<not> any_in face_trigger user_talk"
  from dispatch_returns [of user_talk env "tick (w\<lparr>voice := rest\<rparr>)"] nv obtain w2 where
    "dispatch env user_talk (tick (w\<lparr>voice := rest\<rparr>)) = (Done (), w2)" by blast
  from listen_loop_Return [OF cycle_exit [OF assms ex this]]
  show "\<exists>w2. listen_loop env w = (Done (), speak_text ''Exiting now.'' w2)" by blast
next
  assume ex: "contains ''exit'' user_talk" and en: "enough_input rest"
  from dispatch_enough [of "tick (w\<lparr>voice := rest\<rparr>)" env user_talk] en obtain w2 where
    d: "dispatch env user_talk (tick (w\<lparr>voice := rest\<rparr>)) = (Done (), w2)" by auto
  from dispatch_invoked [OF d] obtain evs where
    "trace w2 = trace w @ evs" "invoked evs = matched user_talk" by auto
  with listen_loop_Return [OF cycle_exit [OF assms ex d]]
  show "\<exists>w2 evs. listen_loop env w = (Done (), speak_text ''Exiting now.'' w2)
                   \<and> trace (speak_text ''Exiting now.'' w2)
                       = trace w @ evs @ [Speak ''Exiting now.'']
                   \<and> invoked evs = matched user_talk"
    by auto
next
  fix r w'
  assume ex: "contains ''exit'' user_talk" and c: "cycle env w = (r, w')"
  from cycle_outcome [OF assms c] ex show "r = Done Return \<or> r = Hang" by blast
next
  fix r w'
  assume ne: "\<not> contains ''exit'' user_talk" and c: "cycle env w = (r, w')"
  show "r \<noteq> Done Return" by (rule cycle_no_exit [OF assms ne c])
  assume "r = Done Continue"
  with c show "listen_loop env w = listen_loop env w'" by (simp add: listen_loop_Continue)
next
  fix w2
  assume ne: "\<not> contains ''exit'' user_talk"
    and d: "user_talk \<noteq> [] \<and> dispatch env user_talk (tick (w\<lparr>voice := rest\<rparr>)) = (Done (), w2)"
  from d have c: "cycle env w = (Done Continue, w2)"
    using cycle_no_exit_Continue [OF assms ne] by blast
  then show "cycle env w = (Done Continue, w2)" .
  from c show "listen_loop env w = listen_loop env w2" by (rule listen_loop_Continue)
qed

theorem exit_after_dispatch_witness:
  "voice (speak_text ''Start to speak''
       (demo_world [Some ''search register exit'', Some ''what is it'', Some ''EXIT'', Some ''Dana'']))
     = Some ''search register exit'' # [Some ''what is it'', Some ''EXIT'', Some ''Dana'']
   \<and> contains ''exit'' ''search register exit''
   \<and> enough_input [Some ''what is it'', Some ''EXIT'', Some ''Dana'']
   \<and> matched ''search register exit'' = [Sensory, Face]
   \<and> start demo_env
        (demo_world [Some ''search register exit'', Some ''what is it'', Some ''EXIT'', Some ''Dana''])
     = (Done (),
        \<lparr>voice = [], clock = 9,
         trace = [Speak ''Start to speak'', Invoke Sensory, Speak ''a red mug'',
                  Speak ''You can ask follow-up questions or say 'exit' to end.'',
                  Ask ''what is it'' (Some ''a red mug''), Speak ''about five dollars'',
                  Speak ''You can ask follow-up questions or say 'exit' to end.'',
                  Speak ''Exiting follow-up session.'',
                  Servo 90, Invoke Face, Speak ''Face registered as Dana'',
                  Speak ''Exiting now.''],
         face_log = Some (Inr (''Dana, known_image/Dana_20240101_120000.jpg'' @ [nl])),
         image_files = {''known_image/Dana_20240101_120000.jpg''}\<rparr>)
   \<and> voice (demo_world [Some ''help me'', None]) = Some ''help me'' # [None]
   \<and> \<not> contains ''exit'' ''help me''
   \<and> cycle demo_env (demo_world [Some ''help me'', None])
     = (Done Continue, \<lparr>voice = [None], clock = 2,
          trace = [Invoke Sos, Speak ''Failed to send SOS message''],
          face_log = None, image_files = {}\<rparr>)
   \<and> listen_loop demo_env (demo_world [Some ''help me'', None])
     = listen_loop demo_env \<lparr>voice = [None], clock = 2,
          trace = [Invoke Sos, Speak ''Failed to send SOS message''],
          face_log = None, image_files = {}\<rparr>"
proof -
  let ?rest = "[Some ''what is it'', Some ''EXIT'', Some ''Dana'']"
  let ?w = "speak_text ''Start to speak''
       (demo_world [Some ''search register exit'', Some ''what is it'', Some ''EXIT'', Some ''Dana''])"
  let ?w2 = "\<lparr>voice = [], clock = 9,
         trace = [Speak ''Start to speak'', Invoke Sensory, Speak ''a red mug'',
                  Speak ''You can ask follow-up questions or say 'exit' to end.'',
                  Ask ''what is it'' (Some ''a red mug''), Speak ''about five dollars'',
                  Speak ''You can ask follow-up questions or say 'exit' to end.'',
                  Speak ''Exiting follow-up session.'',
                  Servo 90, Invoke Face, Speak ''Face registered as Dana''],
         face_log = Some (Inr (''Dana, known_image/Dana_20240101_120000.jpg'' @ [nl])),
         image_files = {''known_image/Dana_20240101_120000.jpg''}\<rparr>"
  have v: "voice ?w = Some ''search register exit'' # ?rest"
    by (simp add: demo_world_def)
  have ex: "contains ''exit'' ''search register exit''" by simp
  have en: "enough_input ?rest" by (simp add: enough_input_def says_exit_def run_defs)
  have m: "matched ''search register exit'' = [Sensory, Face]"
    by (simp add: matched_def categories_def run_defs)
  have d: "dispatch demo_env ''search register exit'' (tick (?w\<lparr>voice := ?rest\<rparr>)) = (Done (), ?w2)"
    by (simp add: run_defs handle_follow_up_queries.simps)
  have s: "speak_text ''Exiting now.'' ?w2 = \<lparr>voice = [], clock = 9,
         trace = [Speak ''Start to speak'', Invoke Sensory, Speak ''a red mug'',
                  Speak ''You can ask follow-up questions or say 'exit' to end.'',
                  Ask ''what is it'' (Some ''a red mug''), Speak ''about five dollars'',
                  Speak ''You can ask follow-up questions or say 'exit' to end.'',
                  Speak ''Exiting follow-up session.'',
                  Servo 90, Invoke Face, Speak ''Face registered as Dana'',
                  Speak ''Exiting now.''],
         face_log = Some (Inr (''Dana, known_image/Dana_20240101_120000.jpg'' @ [nl])),
         image_files = {''known_image/Dana_20240101_120000.jpg''}\<rparr>"
    by (simp add: speak_text_def emit_def)
  let ?u = "demo_world [Some ''help me'', None]"
  have v': "voice ?u = Some ''help me'' # [None]" by (simp add: demo_world_def)
  have ne: "\<not> contains ''exit'' ''help me''" by simp
  have c': "cycle demo_env ?u = (Done Continue, \<lparr>voice = [None], clock = 2,
          trace = [Invoke Sos, Speak ''Failed to send SOS message''],
          face_log = None, image_files = {}\<rparr>)"
    by (simp add: run_defs)
  from exit_after_dispatch [OF v, of demo_env, THEN conjunct1] ex d
  have "listen_loop demo_env ?w = (Done (), speak_text ''Exiting now.'' ?w2)" by blast
  then have 1: "start demo_env
        (demo_world [Some ''search register exit'', Some ''what is it'', Some ''EXIT'', Some ''Dana''])
     = (Done (), \<lparr>voice = [], clock = 9,
         trace = [Speak ''Start to speak'', Invoke Sensory, Speak ''a red mug'',
                  Speak ''You can ask follow-up questions or say 'exit' to end.'',
                  Ask ''what is it'' (Some ''a red mug''), Speak ''about five dollars'',
                  Speak ''You can ask follow-up questions or say 'exit' to end.'',
                  Speak ''Exiting follow-up session.'',
                  Servo 90, Invoke Face, Speak ''Face registered as Dana'',
                  Speak ''Exiting now.''],
         face_log = Some (Inr (''Dana, known_image/Dana_20240101_120000.jpg'' @ [nl])),
         image_files = {''known_image/Dana_20240101_120000.jpg''}\<rparr>)"
    unfolding start_def s .
  from exit_after_dispatch [OF v', of demo_env, THEN conjunct2] ne c'
  have 2: "listen_loop demo_env ?u
     = listen_loop demo_env \<lparr>voice = [None], clock = 2,
          trace = [Invoke Sos, Speak ''Failed to send SOS message''],
          face_log = None, image_files = {}\<rparr>"
    by blast
  show ?thesis
    by (intro conjI) (rule v, rule ex, rule en, rule m, rule 1, rule v', rule ne, rule c', rule 2)
qed


section \<open>No input\<close>

text \<open>
  Claim C4.  When \<open>get_voice_input\<close> returns \<open>None\<close> or the empty string, the pass enters
  no handler, does not leave the loop, speaks \<open>No Input\<close> and nothing else, and the loop
  listens again.  A session that hears nothing but such results never returns and
  never enters a handler.
\<close>

theorem no_input_cycle:
  "(voice w = v # rest \<and> (v = None \<or> v = Some '''') \<longrightarrow>
       cycle env w = (Done Continue, speak_text ''No Input'' (tick (w\<lparr>voice := rest\<rparr>)))
     \<and> trace (speak_text ''No Input'' (tick (w\<lparr>voice := rest\<rparr>))) = trace w @ [Speak ''No Input'']
     \<and> invoked [Speak ''No Input''] = []
     \<and> listen_loop env w = listen_loop env (speak_text ''No Input'' (tick (w\<lparr>voice := rest\<rparr>))))
   \<and> ((\<forall>v \<in> set (voice w). v = None \<or> v = Some '''') \<longrightarrow>
       (\<exists>w'. listen_loop env w = (Hang, w') \<and> invoked (trace w') = invoked (trace w)))"
proof (intro conjI impI)
  assume a: "voice w = v # rest \<and> (v = None \<or> v = Some '''')"
  then have "\<not> truthy v" by (auto simp: truthy_def)
  with a show c: "cycle env w = (Done Continue, speak_text ''No Input'' (tick (w\<lparr>voice := rest\<rparr>)))"
    by (simp add: cycle_def get_voice_input_Cons)
  then show "listen_loop env w = listen_loop env (speak_text ''No Input'' (tick (w\<lparr>voice := rest\<rparr>)))"
    by (rule listen_loop_Continue)
  show "trace (speak_text ''No Input'' (tick (w\<lparr>voice := rest\<rparr>))) = trace w @ [Speak ''No Input'']"
    by simp
  show "invoked [Speak ''No Input''] = []" by simp
next
  assume "\<forall>v \<in> set (voice w). v = None \<or> v = Some ''''"
  then show "\<exists>w'. listen_loop env w = (Hang, w') \<and> invoked (trace w') = invoked (trace w)"
    by (rule listen_loop_no_input)
qed

theorem no_input_cycle_witness:
  "voice (demo_world [None, Some '''']) = None # [Some '''']
   \<and> cycle demo_env (demo_world [None, Some ''''])
       = (Done Continue, \<lparr>voice = [Some ''''], clock = 1, trace = [Speak ''No Input''],
                          face_log = None, image_files = {}\<rparr>)
   \<and> cycle demo_env \<lparr>voice = [Some ''''], clock = 1, trace = [Speak ''No Input''],
                          face_log = None, image_files = {}\<rparr>
       = (Done Continue, \<lparr>voice = [], clock = 2, trace = [Speak ''No Input'', Speak ''No Input''],
                          face_log = None, image_files = {}\<rparr>)
   \<and> (\<exists>w'. listen_loop demo_env (demo_world [None, Some '''']) = (Hang, w')
          \<and> invoked (trace w') = [])"
proof -
  let ?w = "demo_world [None, Some '''']"
  let ?w1 = "\<lparr>voice = [Some ''''], clock = 1, trace = [Speak ''No Input''],
              face_log = None, image_files = {}\<rparr>"
  have v: "voice ?w = None # [Some '''']" by (simp add: demo_world_def)
  have v1: "voice ?w1 = Some '''' # []" by simp
  have all: "\<forall>v \<in> set (voice ?w). v = None \<or> v = Some ''''" by (simp add: demo_world_def)
  from no_input_cycle [of ?w None "[Some '''']" demo_env, THEN conjunct1] v
  have 1: "cycle demo_env ?w = (Done Continue, ?w1)"
    by (simp add: speak_text_def emit_def tick_def demo_world_def)
  from no_input_cycle [of ?w1 "Some ''''" "[]" demo_env, THEN conjunct1] v1
  have 2: "cycle demo_env ?w1 = (Done Continue, \<lparr>voice = [], clock = 2,
             trace = [Speak ''No Input'', Speak ''No Input''], face_log = None, image_files = {}\<rparr>)"
    by (simp add: speak_text_def emit_def tick_def)
  from no_input_cycle [of ?w None "[Some '''']" demo_env, THEN conjunct2] all
  have 3: "\<exists>w'. listen_loop demo_env ?w = (Hang, w') \<and> invoked (trace w') = []"
    by (simp add: demo_world_def)
  from v 1 2 3 show ?thesis by simp
qed


section \<open>Capture provider fallback\<close>

text \<open>
  Claim C7.  Every call of \<open>get_frame\<close> first contacts the configured network camera,
  with a timeout of 5 seconds.  When that attempt does not deliver a decoded image
  (it raises, times out, or decodes to nothing), the configured local device is contacted
  before the function returns, and an image it delivers is the result.  \<open>None\<close> is
  returned only when both devices were contacted and neither delivered an image, and no
  exception leaves the function.
\<close>

theorem get_frame_fallback:
  "(\<exists>v. snd (get_frame cfg n l) = Inr v)
   \<and> hd (fst (get_frame cfg n l)) = TryNetwork (esp32_cam_url cfg) 5
   \<and> (\<forall>f. n = NetImage f \<longrightarrow>
          get_frame cfg n l = ([TryNetwork (esp32_cam_url cfg) 5], Inr (Some f)))
   \<and> ((\<forall>f. n \<noteq> NetImage f) \<longrightarrow>
          fst (get_frame cfg n l) = [TryNetwork (esp32_cam_url cfg) 5, TryLocal (camera_index cfg)]
          \<and> (\<forall>f. l = LocalImage f \<longrightarrow> snd (get_frame cfg n l) = Inr (Some f)))
   \<and> (snd (get_frame cfg n l) = Inr None \<longrightarrow>
          fst (get_frame cfg n l) = [TryNetwork (esp32_cam_url cfg) 5, TryLocal (camera_index cfg)]
          \<and> (\<forall>f. n \<noteq> NetImage f) \<and> (\<forall>f. l \<noteq> LocalImage f))"
  by (cases n; cases l) (simp_all add: get_frame_def try_except_def fetch_esp32_def read_local_def)

theorem get_frame_fallback_witness:
  "(\<forall>f. NetRaises ''timed out'' \<noteq> NetImage f)
   \<and> get_frame \<lparr>esp32_cam_url = ''http://cam'', camera_index = 0\<rparr>
        (NetRaises ''timed out'') (LocalImage (Frame 7))
       = ([TryNetwork ''http://cam'' 5, TryLocal 0], Inr (Some (Frame 7)))
   \<and> get_frame \<lparr>esp32_cam_url = ''http://cam'', camera_index = 0\<rparr>
        (NetRaises ''timed out'') LocalNotOpened
       = ([TryNetwork ''http://cam'' 5, TryLocal 0], Inr None)
   \<and> get_frame \<lparr>esp32_cam_url = ''http://cam'', camera_index = 0\<rparr>
        (NetImage (Frame 3)) LocalNotOpened
       = ([TryNetwork ''http://cam'' 5], Inr (Some (Frame 3)))"
  using get_frame_fallback [of "\<lparr>esp32_cam_url = ''http://cam'', camera_index = 0\<rparr>"
      "NetRaises ''timed out''" "LocalImage (Frame 7)"]
    get_frame_fallback [of "\<lparr>esp32_cam_url = ''http://cam'', camera_index = 0\<rparr>"
      "NetRaises ''timed out''" LocalNotOpened]
    get_frame_fallback [of "\<lparr>esp32_cam_url = ''http://cam'', camera_index = 0\<rparr>"
      "NetImage (Frame 3)" LocalNotOpened]
  by (simp add: get_frame_def try_except_def fetch_esp32_def read_local_def)


section \<open>The follow-up response generator never fails silently\<close>

text \<open>
  Claim C8.  \<open>generate_contextual_response\<close> always returns a string and never lets an
  exception escape.  With an absent context (\<open>None\<close> or empty) the result is one fixed
  text, whatever was asked; when the model call raises, the result is one fixed apology,
  whatever the exception; in every other case the result is the model's answer.
\<close>

theorem contextual_response_total:
  "(\<exists>s. generate_contextual_response model user_input context = Inr s)
   \<and> (\<not> truthy context \<longrightarrow>
          generate_contextual_response model user_input context
            = Inr ''There is no context available to respond to your question.'')
   \<and> (truthy context \<longrightarrow>
          (\<forall>e. model (the context @ [nl] @ ''User: '' @ user_input) = Inl e \<longrightarrow>
               generate_contextual_response model user_input context
                 = Inr ''Sorry, I couldn't process your request.'')
          \<and> (\<forall>answer. model (the context @ [nl] @ ''User: '' @ user_input) = Inr answer \<longrightarrow>
               generate_contextual_response model user_input context = Inr answer))"
  by (cases "model (the context @ [nl] @ ''User: '' @ user_input)")
     (simp_all add: generate_contextual_response_def try_except_def)

theorem contextual_response_total_witness:
  "\<not> truthy None \<and> \<not> truthy (Some '''') \<and> truthy (Some ''a red mug'')
   \<and> generate_contextual_response (\<lambda>q. Inl ''quota exceeded'') ''how much is it'' None
        = Inr ''There is no context available to respond to your question.''
   \<and> generate_contextual_response (\<lambda>q. Inl ''quota exceeded'') ''how much is it'' (Some '''')
        = Inr ''There is no context available to respond to your question.''
   \<and> generate_contextual_response (\<lambda>q. Inl ''quota exceeded'') ''how much is it'' (Some ''a red mug'')
        = Inr ''Sorry, I couldn't process your request.''
   \<and> generate_contextual_response (\<lambda>q. Inr (''You said: '' @ q)) ''how much is it'' (Some ''a red mug'')
        = Inr (''You said: a red mug'' @ [nl] @ ''User: how much is it'')"
  using contextual_response_total [of "\<lambda>q. Inl ''quota exceeded''" "''how much is it''" None]
    contextual_response_total [of "\<lambda>q. Inl ''quota exceeded''" "''how much is it''" "Some ''''"]
    contextual_response_total [of "\<lambda>q. Inl ''quota exceeded''" "''how much is it''" "Some ''a red mug''"]
    contextual_response_total [of "\<lambda>q. Inr (''You said: '' @ q)" "''how much is it''" "Some ''a red mug''"]
  by (simp add: truthy_def)


section \<open>The SOS result and its spoken notice\<close>

text \<open>
  Claim C6.  \<open>send_sos_message\<close> never lets an exception escape: it returns the
  identifier the provider assigned when the message was created, and the text
  \<open>Failed to send SOS message: \<close> followed by the exception's message when the client or
  the sending raised.  When the SOS trigger matches, the dispatcher speaks the success
  notice if \<open>SID\<close> occurs in the returned string and the failure notice otherwise.
\<close>

theorem sos_result_is_a_string:
  "(\<exists>result. send_sos_message t = Inr result)
   \<and> (\<forall>sid. t = Created sid \<longrightarrow> send_sos_message t = Inr sid)
   \<and> (\<forall>e. t = ClientRaises e \<or> t = CreateRaises e \<longrightarrow>
          send_sos_message t = Inr (''Failed to send SOS message: '' @ e))
   \<and> (any_in sos_trigger user_talk \<longrightarrow>
        (\<exists>result. send_sos_message (twilio env (clock w)) = Inr result
           \<and> sos_step env user_talk w
              = (Done (),
                 speak_text (if contains ''SID'' result then ''SOS message sent successfully''
                             else ''Failed to send SOS message'')
                   (tick (emit (Invoke Sos) w)))))"
proof (intro conjI allI impI)
  show "\<exists>result. send_sos_message t = Inr result" by (rule send_sos_message_returns)
next
  fix sid assume "t = Created sid"
  then show "send_sos_message t = Inr sid" by (simp add: send_sos_message_def try_except_def)
next
  fix e assume "t = ClientRaises e \<or> t = CreateRaises e"
  then show "send_sos_message t = Inr (''Failed to send SOS message: '' @ e)"
    by (auto simp: send_sos_message_def try_except_def)
next
  assume m: "any_in sos_trigger user_talk"
  obtain result where r: "send_sos_message (twilio env (clock w)) = Inr result"
    using send_sos_message_returns by blast
  with m have "sos_step env user_talk w
              = (Done (),
                 speak_text (if contains ''SID'' result then ''SOS message sent successfully''
                             else ''Failed to send SOS message'')
                   (tick (emit (Invoke Sos) w)))"
    by (simp add: sos_step_def)
  with r show "\<exists>result. send_sos_message (twilio env (clock w)) = Inr result
           \<and> sos_step env user_talk w
              = (Done (),
                 speak_text (if contains ''SID'' result then ''SOS message sent successfully''
                             else ''Failed to send SOS message'')
                   (tick (emit (Invoke Sos) w)))"
    by blast
qed

theorem sos_result_is_a_string_witness:
  "send_sos_message (Created ''SM1f0e2d3c'') = Inr ''SM1f0e2d3c''
   \<and> send_sos_message (CreateRaises ''HTTP 401 error: Authenticate'')
       = Inr ''Failed to send SOS message: HTTP 401 error: Authenticate''
   \<and> send_sos_message (ClientRaises ''Credentials are required'')
       = Inr ''Failed to send SOS message: Credentials are required''
   \<and> any_in sos_trigger ''help''
   \<and> trace (snd (sos_step (demo_env\<lparr>twilio := \<lambda>t. Created ''SID-42''\<rparr>) ''help'' (demo_world [])))
       = [Invoke Sos, Speak ''SOS message sent successfully'']
   \<and> trace (snd (sos_step (demo_env\<lparr>twilio := \<lambda>t. Created ''SM1f0e2d3c''\<rparr>) ''help'' (demo_world [])))
       = [Invoke Sos, Speak ''Failed to send SOS message'']
   \<and> trace (snd (sos_step (demo_env\<lparr>twilio := \<lambda>t. CreateRaises ''invalid Account SID''\<rparr>) ''help''
         (demo_world [])))
       = [Invoke Sos, Speak ''SOS message sent successfully'']"
proof -
  have m: "any_in sos_trigger ''help''" by (simp add: any_in_def sos_trigger_def)
  note t = sos_result_is_a_string [of "Created ''SM1f0e2d3c''" "''help''"
      "demo_env\<lparr>twilio := \<lambda>t. Created ''SM1f0e2d3c''\<rparr>" "demo_world []"]
    sos_result_is_a_string [of "CreateRaises ''HTTP 401 error: Authenticate''" "''help''"
      "demo_env\<lparr>twilio := \<lambda>t. Created ''SID-42''\<rparr>" "demo_world []"]
    sos_result_is_a_string [of "ClientRaises ''Credentials are required''" "''help''"
      "demo_env\<lparr>twilio := \<lambda>t. CreateRaises ''invalid Account SID''\<rparr>" "demo_world []"]
  from t m show ?thesis
    by (simp add: send_sos_message_def try_except_def speak_text_def emit_def tick_def
          demo_world_def demo_env_def)
qed


section \<open>The follow-up sub-session\<close>

text \<open>
  Claim C3, as stated, at two sessions.  In the first the pass hears \<open>search exit\<close> and
  the sub-session then hears \<open>EXIT\<close>: the sub-session ends, and the pass goes on to the
  exit test of the first utterance and leaves the loop, so control does not come back to
  listening.  In the second the pass hears \<open>search and help\<close> and the sub-session hears
  \<open>exit\<close>: after the sub-session the pass enters the SOS handler.
\<close>

theorem follow_up_exit_resumes_dispatch_counterexample:
  "says_exit (Some ''EXIT'') \<and> says_exit (Some ''exit'')
   \<and> cycle demo_env (demo_world [Some ''search exit'', Some ''EXIT''])
      = (Done Return,
         \<lparr>voice = [], clock = 3,
          trace = [Invoke Sensory, Speak ''a red mug'',
                   Speak ''You can ask follow-up questions or say 'exit' to end.'',
                   Speak ''Exiting follow-up session.'', Speak ''Exiting now.''],
          face_log = None, image_files = {}\<rparr>)
   \<and> cycle demo_env (demo_world [Some ''search and help'', Some ''exit'', None])
      = (Done Continue,
         \<lparr>voice = [None], clock = 4,
          trace = [Invoke Sensory, Speak ''a red mug'',
                   Speak ''You can ask follow-up questions or say 'exit' to end.'',
                   Speak ''Exiting follow-up session.'',
                   Invoke Sos, Speak ''Failed to send SOS message''],
          face_log = None, image_files = {}\<rparr>)"
proof -
  have e: "says_exit (Some ''EXIT'')" "says_exit (Some ''exit'')"
    by (simp_all add: says_exit_def run_defs)
  have 1: "cycle demo_env (demo_world [Some ''search exit'', Some ''EXIT''])
      = (Done Return,
         \<lparr>voice = [], clock = 3,
          trace = [Invoke Sensory, Speak ''a red mug'',
                   Speak ''You can ask follow-up questions or say 'exit' to end.'',
                   Speak ''Exiting follow-up session.'', Speak ''Exiting now.''],
          face_log = None, image_files = {}\<rparr>)"
    by (simp add: run_defs handle_follow_up_queries.simps)
  have 2: "cycle demo_env (demo_world [Some ''search and help'', Some ''exit'', None])
      = (Done Continue,
         \<lparr>voice = [None], clock = 4,
          trace = [Invoke Sensory, Speak ''a red mug'',
                   Speak ''You can ask follow-up questions or say 'exit' to end.'',
                   Speak ''Exiting follow-up session.'',
                   Invoke Sos, Speak ''Failed to send SOS message''],
          face_log = None, image_files = {}\<rparr>)"
    by (simp add: run_defs handle_follow_up_queries.simps)
  show ?thesis by (intro conjI) (rule e(1), rule e(2), rule 1, rule 2)
qed

text \<open>
  Claim C3, amended.  Whatever the sub-session entered with context \<open>C\<close> emits is speech
  or a question put to the response generator together with that same \<open>C\<close>; it enters no
  handler and lets no exception escape.  One turn: a falsy transcript speaks the retry
  notice and the loop goes on; a transcript that contains \<open>exit\<close> once lowercased
  speaks the farewell and returns; any other transcript is lowercased, put to the
  generator with \<open>C\<close>, and the answer is spoken before the loop goes on.  There is no
  limit on the turns: on recorded input of any length without an exit utterance the
  sub-session has not returned, and with one it returns having consumed the input up to
  and including the first exit utterance.  Its return is the return of the object step of
  the dispatcher, which goes on with the remaining steps and the exit test of the
  utterance that started the pass: whatever was said in the sub-session, a pass that
  ends has entered exactly the handlers that utterance matches, and it leaves the loop
  exactly if that utterance contains \<open>exit\<close>; otherwise the loop listens again.
\<close>

theorem follow_up_session:
  "(\<forall>r w'. handle_follow_up_queries env C w = (r, w') \<longrightarrow>
       (\<exists>evs. trace w' = trace w @ evs \<and> list_all (follow_up_event C) evs
             \<and> invoked evs = [] \<and> (\<forall>e. r \<noteq> Raised e)))
   \<and> (\<forall>v w1. get_voice_input (speak_text ''You can ask follow-up questions or say 'exit' to end.'' w)
                = (Done v, w1) \<longrightarrow>
        (\<not> truthy v \<longrightarrow>
           handle_follow_up_queries env C w
             = handle_follow_up_queries env C
                 (speak_text ''No valid input detected. Please try again or say 'exit' to end.'' w1))
      \<and> (truthy v \<and> contains ''exit'' (lower (the v)) \<longrightarrow>
           handle_follow_up_queries env C w
             = (Done (), speak_text ''Exiting follow-up session.'' w1))
      \<and> (truthy v \<and> \<not> contains ''exit'' (lower (the v)) \<longrightarrow>
           (\<exists>answer. generate_contextual_response (genai env (clock w1)) (lower (the v)) C = Inr answer
              \<and> handle_follow_up_queries env C w
                = handle_follow_up_queries env C
                    (speak_text answer (tick (emit (Ask (lower (the v)) C) w1))))))
   \<and> ((\<forall>v \<in> set (voice w). \<not> says_exit v) \<longrightarrow> fst (handle_follow_up_queries env C w) = Hang)
   \<and> ((\<exists>v \<in> set (voice w). says_exit v) \<longrightarrow>
        (\<exists>w'. handle_follow_up_queries env C w = (Done (), w')
           \<and> voice w' = tl (dropWhile (\<lambda>v. \<not> says_exit v) (voice w))))
   \<and> (\<forall>info w1. any_in sensory_trigger user_talk \<and> recognize_object env w0 = (info, w1)
                 \<and> truthy info \<longrightarrow>
        sensory_step env user_talk w0 = handle_follow_up_queries env info w1)
   \<and> (\<forall>r w'. voice w0 = Some user_talk # rest \<and> cycle env w0 = (r, w') \<and> r \<noteq> Hang \<longrightarrow>
        (\<exists>evs. trace w' = trace w0 @ evs \<and> invoked evs = matched user_talk)
      \<and> (contains ''exit'' user_talk \<longrightarrow> r = Done Return)
      \<and> (\<not> contains ''exit'' user_talk \<longrightarrow> r = Done Continue))"
proof (intro conjI allI impI)
  fix r w' assume "handle_follow_up_queries env C w = (r, w')"
  from follow_up_trace [OF this]
  show "\<exists>evs. trace w' = trace w @ evs \<and> list_all (follow_up_event C) evs
             \<and> invoked evs = [] \<and> (\<forall>e. r \<noteq> Raised e)"
    by (auto simp: invoked_follow_up)
next
  fix v w1
  assume gv: "get_voice_input (speak_text ''You can ask follow-up questions or say 'exit' to end.'' w)
                = (Done v, w1)"
  { assume "\<not> truthy v"
    from follow_up_retry [OF gv this]
    show "handle_follow_up_queries env C w
             = handle_follow_up_queries env C
                 (speak_text ''No valid input detected. Please try again or say 'exit' to end.'' w1)" . }
  { assume "truthy v \<and> contains ''exit'' (lower (the v))"
    then show "handle_follow_up_queries env C w
             = (Done (), speak_text ''Exiting follow-up session.'' w1)"
      using follow_up_exit [OF gv] by blast }
  { assume "truthy v \<and> \<not> contains ''exit'' (lower (the v))"
    then show "\<exists>answer. generate_contextual_response (genai env (clock w1)) (lower (the v)) C = Inr answer
              \<and> handle_follow_up_queries env C w
                = handle_follow_up_queries env C
                    (speak_text answer (tick (emit (Ask (lower (the v)) C) w1)))"
      using follow_up_answer [OF gv] by blast }
next
  assume "\<forall>v \<in> set (voice w). \<not> says_exit v"
  with follow_up_result [of env C w] show "fst (handle_follow_up_queries env C w) = Hang"
    by auto
next
  assume "\<exists>v \<in> set (voice w). says_exit v"
  with follow_up_result [of env C w]
  show "\<exists>w'. handle_follow_up_queries env C w = (Done (), w')
           \<and> voice w' = tl (dropWhile (\<lambda>v. \<not> says_exit v) (voice w))"
    by auto
next
  fix info w1
  assume "any_in sensory_trigger user_talk \<and> recognize_object env w0 = (info, w1) \<and> truthy info"
  then show "sensory_step env user_talk w0 = handle_follow_up_queries env info w1"
    by (simp add: sensory_step_def)
next
  fix r w'
  assume a: "voice w0 = Some user_talk # rest \<and> cycle env w0 = (r, w') \<and> r \<noteq> Hang"
  then have v: "voice w0 = Some user_talk # rest" and c: "cycle env w0 = (r, w')" and h: "r \<noteq> Hang"
    by simp_all
  from cycle_outcome [OF v c] h
  show "\<exists>evs. trace w' = trace w0 @ evs \<and> invoked evs = matched user_talk" by blast
  { assume "contains ''exit'' user_talk"
    with cycle_outcome [OF v c] h show "r = Done Return" by blast }
  { assume "\<not> contains ''exit'' user_talk"
    with cycle_outcome [OF v c] h show "r = Done Continue" by blast }
qed

theorem follow_up_session_witness:
  "says_exit (Some ''help EXIT now'') \<and> \<not> says_exit None \<and> \<not> says_exit (Some ''How much is it'')
   \<and> handle_follow_up_queries demo_env (Some ''a red mug'')
        (demo_world [None, Some ''How much is it'', Some ''help EXIT now'', Some ''scene''])
      = (Done (),
         \<lparr>voice = [Some ''scene''], clock = 4,
          trace = [Speak ''You can ask follow-up questions or say 'exit' to end.'',
                   Speak ''No valid input detected. Please try again or say 'exit' to end.'',
                   Speak ''You can ask follow-up questions or say 'exit' to end.'',
                   Ask ''how much is it'' (Some ''a red mug''), Speak ''about five dollars'',
                   Speak ''You can ask follow-up questions or say 'exit' to end.'',
                   Speak ''Exiting follow-up session.''],
          face_log = None, image_files = {}\<rparr>)
   \<and> fst (handle_follow_up_queries demo_env (Some ''a red mug'')
        (demo_world [None, Some ''How much is it'', None, Some ''and the colour''])) = Hang
   \<and> voice (demo_world [Some ''search and help'', Some ''exit'', None])
       = Some ''search and help'' # [Some ''exit'', None]
   \<and> matched ''search and help'' = [Sensory, Sos]
   \<and> fst (cycle demo_env (demo_world [Some ''search and help'', Some ''exit'', None])) = Done Continue
   \<and> invoked (trace (snd (cycle demo_env (demo_world [Some ''search and help'', Some ''exit'', None]))))
       = [Sensory, Sos]"
proof -
  let ?w = "demo_world [None, Some ''How much is it'', Some ''help EXIT now'', Some ''scene'']"
  let ?u = "demo_world [None, Some ''How much is it'', None, Some ''and the colour'']"
  have e: "says_exit (Some ''help EXIT now'')" "\<not> says_exit None"
    "\<not> says_exit (Some ''How much is it'')" "\<not> says_exit (Some ''and the colour'')"
    by (simp_all add: says_exit_def run_defs)
  have c: "handle_follow_up_queries demo_env (Some ''a red mug'') ?w
      = (Done (),
         \<lparr>voice = [Some ''scene''], clock = 4,
          trace = [Speak ''You can ask follow-up questions or say 'exit' to end.'',
                   Speak ''No valid input detected. Please try again or say 'exit' to end.'',
                   Speak ''You can ask follow-up questions or say 'exit' to end.'',
                   Ask ''how much is it'' (Some ''a red mug''), Speak ''about five dollars'',
                   Speak ''You can ask follow-up questions or say 'exit' to end.'',
                   Speak ''Exiting follow-up session.''],
          face_log = None, image_files = {}\<rparr>)"
    by (simp add: run_defs handle_follow_up_queries.simps)
  have "\<forall>v \<in> set (voice ?u). \<not> says_exit v"
    using e by (simp add: demo_world_def)
  with follow_up_session [of demo_env "Some ''a red mug''" ?u]
  have "fst (handle_follow_up_queries demo_env (Some ''a red mug'') ?u) = Hang" by blast
  then have hg: "fst (handle_follow_up_queries demo_env (Some ''a red mug'')
        (demo_world [None, Some ''How much is it'', None, Some ''and the colour''])) = Hang" .
  let ?s = "demo_world [Some ''search and help'', Some ''exit'', None]"
  have sv: "voice ?s = Some ''search and help'' # [Some ''exit'', None]" by (simp add: demo_world_def)
  have sm: "matched ''search and help'' = [Sensory, Sos]"
    by (simp add: matched_def categories_def run_defs)
  have ne: "\<not> contains ''exit'' ''search and help''" by simp
  obtain r w' where sc: "cycle demo_env ?s = (r, w')" by (cases "cycle demo_env ?s")
  have en: "enough_input [Some ''exit'', None]"
    by (simp add: enough_input_def says_exit_def run_defs)
  have nh: "r \<noteq> Hang" by (rule cycle_enough [OF sv en sc])
  from follow_up_session [where ?w0.0 = ?s and user_talk = "''search and help''"
      and rest = "[Some ''exit'', None]" and env = demo_env, THEN conjunct2, THEN conjunct2,
      THEN conjunct2, THEN conjunct2, THEN conjunct2, rule_format, of r w'] sv sc nh ne
  have "\<exists>evs. trace w' = trace ?s @ evs \<and> invoked evs = matched ''search and help''"
    and "r = Done Continue" by blast+
  with sc sm have s1: "fst (cycle demo_env ?s) = Done Continue"
    and s2: "invoked (trace (snd (cycle demo_env ?s))) = [Sensory, Sos]"
    by (auto simp: demo_world_def)
  show ?thesis
    by (intro conjI) (rule e(1), rule e(2), rule e(3), rule c, rule hg, rule sv, rule sm, rule s1, rule s2)
qed


section \<open>Upper and lower case in the exit test\<close>

lemma contains_map: "contains a b \<Longrightarrow> contains (map f a) (map f b)"
proof (induction b)
  case Nil
  then show ?case by simp
next
  case (Cons c cs)
  from Cons.prems have "prefix a (c # cs) \<or> contains a cs" by simp
  then show ?case
  proof
    assume "prefix a (c # cs)"
    then have "prefix (map f a) (map f (c # cs))" by (rule map_mono_prefix)
    then show ?thesis by simp
  next
    assume "contains a cs"
    with Cons.IH show ?thesis by simp
  qed
qed

lemma contains_any_casing:
  assumes "lower e = ''exit''" "contains e u"
  shows "contains ''exit'' (lower u)"
  using contains_map [OF assms(2), of lower_char] assms(1) by (simp add: lower_def)

text \<open>
  Claim C10, as stated, at the utterance \<open>EXIT help\<close>.  Its only occurrence of the exit
  keyword is upper-cased, and it does not leave the loop, but it matches the SOS
  trigger, whose keywords are lowercase.
\<close>

theorem exit_case_sensitivity_counterexample:
  "\<not> contains ''exit'' ''EXIT help''
   \<and> contains ''exit'' (lower ''EXIT help'')
   \<and> matched ''EXIT help'' = [Sos]
   \<and> cycle demo_env (demo_world [Some ''EXIT help'', None])
      = (Done Continue,
         \<lparr>voice = [None], clock = 2,
          trace = [Invoke Sos, Speak ''Failed to send SOS message''],
          face_log = None, image_files = {}\<rparr>)"
proof -
  have 1: "\<not> contains ''exit'' ''EXIT help''" by simp
  have 2: "contains ''exit'' (lower ''EXIT help'')"
    by (simp add: lower_def lower_char_def upper_letters_def lower_letters_def)
  have 3: "matched ''EXIT help'' = [Sos]" by (simp add: matched_def categories_def run_defs)
  have 4: "cycle demo_env (demo_world [Some ''EXIT help'', None])
      = (Done Continue,
         \<lparr>voice = [None], clock = 2,
          trace = [Invoke Sos, Speak ''Failed to send SOS message''],
          face_log = None, image_files = {}\<rparr>)"
    by (simp add: run_defs)
  show ?thesis by (intro conjI) (rule 1, rule 2, rule 3, rule 4)
qed

text \<open>
  Claim C10, amended.  The follow-up sub-session ends at an utterance exactly if its
  lowercased form contains \<open>exit\<close>; that is so whenever the utterance contains \<open>exit\<close> in
  any casing.  The top-level loop tests the raw transcript: a pass whose utterance
  contains \<open>exit\<close> as written returns from the loop unless it is still waiting in a
  handler, and a pass whose utterance does not, never returns from it; when such a pass
  ends the loop goes on, having entered exactly the handlers whose keywords occur in the
  utterance as written.  A non-empty utterance without any lowercase letter, such as
  \<open>EXIT\<close>, matches no trigger category and emits nothing.
\<close>

theorem exit_case_sensitivity:
  "(voice w = Some u # rest \<and> contains ''exit'' (lower u) \<longrightarrow>
       handle_follow_up_queries env C w
         = (Done (), speak_text ''Exiting follow-up session.''
               (tick ((speak_text ''You can ask follow-up questions or say 'exit' to end.'' w)
                  \<lparr>voice := rest\<rparr>))))
   \<and> (\<forall>e. lower e = ''exit'' \<and> contains e u \<longrightarrow> contains ''exit'' (lower u))
   \<and> (voice w = Some u # rest \<and> u \<noteq> [] \<and> \<not> contains ''exit'' (lower u) \<longrightarrow>
       (\<exists>answer. handle_follow_up_queries env C w
          = handle_follow_up_queries env C
              (speak_text answer (tick (emit (Ask (lower u) C)
                 (tick ((speak_text ''You can ask follow-up questions or say 'exit' to end.'' w)
                    \<lparr>voice := rest\<rparr>)))))))
   \<and> (voice w = Some u # rest \<and> contains ''exit'' u \<longrightarrow>
       (\<forall>r w'. cycle env w = (r, w') \<longrightarrow> r = Done Return \<or> r = Hang))
   \<and> (voice w = Some u # rest \<and> \<not> contains ''exit'' u \<longrightarrow>
       (\<forall>r w'. cycle env w = (r, w') \<longrightarrow>
          r \<noteq> Done Return
          \<and> (r \<noteq> Hang \<longrightarrow> r = Done Continue
                \<and> (\<exists>evs. trace w' = trace w @ evs \<and> invoked evs = matched u))))
   \<and> (voice w = Some u # rest \<and> u \<noteq> [] \<and> set u \<inter> set lower_letters = {} \<longrightarrow>
         \<not> contains ''exit'' u
       \<and> matched u = []
       \<and> cycle env w = (Done Continue, tick (w\<lparr>voice := rest\<rparr>))
       \<and> listen_loop env w = listen_loop env (tick (w\<lparr>voice := rest\<rparr>)))"
proof (intro conjI impI allI)
  assume a: "voice w = Some u # rest \<and> contains ''exit'' (lower u)"
  then have "u \<noteq> []" by (auto simp: lower_def)
  with a have "get_voice_input (speak_text ''You can ask follow-up questions or say 'exit' to end.'' w)
      = (Done (Some u), tick ((speak_text ''You can ask follow-up questions or say 'exit' to end.'' w)
                  \<lparr>voice := rest\<rparr>))" "truthy (Some u)" "contains ''exit'' (lower (the (Some u)))"
    by (simp_all add: get_voice_input_def truthy_def)
  from follow_up_exit [OF this]
  show "handle_follow_up_queries env C w
         = (Done (), speak_text ''Exiting follow-up session.''
               (tick ((speak_text ''You can ask follow-up questions or say 'exit' to end.'' w)
                  \<lparr>voice := rest\<rparr>)))" .
next
  fix e
  assume "lower e = ''exit'' \<and> contains e u"
  then show "contains ''exit'' (lower u)" using contains_any_casing by blast
next
  assume a: "voice w = Some u # rest \<and> u \<noteq> [] \<and> \<not> contains ''exit'' (lower u)"
  then have "get_voice_input (speak_text ''You can ask follow-up questions or say 'exit' to end.'' w)
      = (Done (Some u), tick ((speak_text ''You can ask follow-up questions or say 'exit' to end.'' w)
                  \<lparr>voice := rest\<rparr>))" "truthy (Some u)" "\<not> contains ''exit'' (lower (the (Some u)))"
    by (simp_all add: get_voice_input_def truthy_def)
  from follow_up_answer [OF this, of env C]
  show "\<exists>answer. handle_follow_up_queries env C w
          = handle_follow_up_queries env C
              (speak_text answer (tick (emit (Ask (lower u) C)
                 (tick ((speak_text ''You can ask follow-up questions or say 'exit' to end.'' w)
                    \<lparr>voice := rest\<rparr>)))))"
    by auto
next
  fix r w'
  assume a: "voice w = Some u # rest \<and> contains ''exit'' u" and c: "cycle env w = (r, w')"
  from cycle_outcome [OF a [THEN conjunct1] c] a show "r = Done Return \<or> r = Hang" by blast
next
  fix r w'
  assume a: "voice w = Some u # rest \<and> \<not> contains ''exit'' u" and c: "cycle env w = (r, w')"
  from a c show "r \<noteq> Done Return" using cycle_no_exit by blast
  { assume "r \<noteq> Hang"
    with cycle_outcome [OF a [THEN conjunct1] c] a
    show "r = Done Continue" by blast }
  { assume "r \<noteq> Hang"
    with cycle_outcome [OF a [THEN conjunct1] c]
    show "\<exists>evs. trace w' = trace w @ evs \<and> invoked evs = matched u" by blast }
next
  assume a: "voice w = Some u # rest \<and> u \<noteq> [] \<and> set u \<inter> set lower_letters = {}"
  then have m: "matched u = []" and ne: "\<not> contains ''exit'' u"
    using no_lowercase_matched by blast+
  show "matched u = []" by (rule m)
  show "\<not> contains ''exit'' u" by (rule ne)
  from a ne dispatch_unmatched [OF m]
  show c: "cycle env w = (Done Continue, tick (w\<lparr>voice := rest\<rparr>))"
    by (simp add: cycle_def get_voice_input_Cons truthy_def)
  then show "listen_loop env w = listen_loop env (tick (w\<lparr>voice := rest\<rparr>))"
    by (rule listen_loop_Continue)
qed

theorem exit_case_sensitivity_witness:
  "voice (demo_world [Some ''please EXIT'', None]) = Some ''please EXIT'' # [None]
   \<and> lower ''EXIT'' = ''exit'' \<and> lower ''Exit'' = ''exit'' \<and> lower ''eXiT'' = ''exit''
   \<and> contains ''EXIT'' ''please EXIT''
   \<and> contains ''exit'' (lower ''please EXIT'') \<and> \<not> contains ''exit'' ''please EXIT''
   \<and> handle_follow_up_queries demo_env (Some ''a red mug'') (demo_world [Some ''please EXIT'', None])
       = (Done (), \<lparr>voice = [None], clock = 1,
            trace = [Speak ''You can ask follow-up questions or say 'exit' to end.'',
                     Speak ''Exiting follow-up session.''],
            face_log = None, image_files = {}\<rparr>)
   \<and> cycle demo_env (demo_world [Some ''please EXIT'', None])
       = (Done Continue, \<lparr>voice = [None], clock = 1, trace = [], face_log = None, image_files = {}\<rparr>)
   \<and> matched ''please EXIT'' = []
   \<and> set ''EXIT'' \<inter> set lower_letters = {}
   \<and> cycle demo_env (demo_world [Some ''EXIT'', None])
       = (Done Continue, \<lparr>voice = [None], clock = 1, trace = [], face_log = None, image_files = {}\<rparr>)"
proof -
  let ?w = "demo_world [Some ''please EXIT'', None]"
  let ?x = "demo_world [Some ''EXIT'', None]"
  have v: "voice ?w = Some ''please EXIT'' # [None]" by (simp add: demo_world_def)
  have vx: "voice ?x = Some ''EXIT'' # [None]" by (simp add: demo_world_def)
  have l: "lower ''EXIT'' = ''exit''" "lower ''Exit'' = ''exit''" "lower ''eXiT'' = ''exit''"
    by (simp_all add: lower_def lower_char_def upper_letters_def lower_letters_def)
  have ce: "contains ''EXIT'' ''please EXIT''" by simp
  note T = exit_case_sensitivity [where w = ?w and u = "''please EXIT''" and rest = "[None]"
      and env = demo_env and C = "Some ''a red mug''"]
  from T [THEN conjunct2, THEN conjunct1] l(1) ce
  have c: "contains ''exit'' (lower ''please EXIT'')" by blast
  have n: "\<not> contains ''exit'' ''please EXIT''" by simp
  from T [THEN conjunct1] v c
  have "handle_follow_up_queries demo_env (Some ''a red mug'') ?w
         = (Done (), speak_text ''Exiting follow-up session.''
               (tick ((speak_text ''You can ask follow-up questions or say 'exit' to end.'' ?w)
                  \<lparr>voice := [None]\<rparr>)))"
    by blast
  then have h: "handle_follow_up_queries demo_env (Some ''a red mug'') ?w
       = (Done (), \<lparr>voice = [None], clock = 1,
            trace = [Speak ''You can ask follow-up questions or say 'exit' to end.'',
                     Speak ''Exiting follow-up session.''],
            face_log = None, image_files = {}\<rparr>)"
    by (simp add: speak_text_def emit_def tick_def demo_world_def)
  have m: "matched ''please EXIT'' = []" by (simp add: matched_def categories_def run_defs)
  have cy: "cycle demo_env ?w
       = (Done Continue, \<lparr>voice = [None], clock = 1, trace = [], face_log = None, image_files = {}\<rparr>)"
    by (simp add: run_defs)
  have s: "set ''EXIT'' \<inter> set lower_letters = {}" by (simp add: lower_letters_def)
  from exit_case_sensitivity [where w = ?x and u = "''EXIT''" and rest = "[None]"
      and env = demo_env, THEN conjunct2, THEN conjunct2, THEN conjunct2, THEN conjunct2,
      THEN conjunct2] vx s
  have "cycle demo_env ?x = (Done Continue, tick (?x\<lparr>voice := [None]\<rparr>))" by simp
  then have cx: "cycle demo_env ?x
       = (Done Continue, \<lparr>voice = [None], clock = 1, trace = [], face_log = None, image_files = {}\<rparr>)"
    by (simp add: tick_def demo_world_def)
  show ?thesis
    by (intro conjI)
       (rule v, rule l(1), rule l(2), rule l(3), rule ce, rule c, rule n, rule h, rule cy, rule m,
        rule s, rule cx)
qed


section \<open>The sentinel of the video analysis\<close>

lemma capture_loop_pushes_frames:
  "capture_loop frame_interval frame_count ps q = (r, q') \<Longrightarrow>
     \<exists>items. q' = q @ map Some items"
proof (induction frame_interval frame_count ps q arbitrary: r q' rule: capture_loop.induct)
  case (1 frame_interval frame_count q)
  then show ?case by simp
next
  case (2 frame_interval frame_count rest q)
  then show ?case by simp
next
  case (3 frame_interval frame_count time quit rest q)
  show ?case
  proof (cases "frame_interval = 0")
    case True
    with "3.prems" show ?thesis by simp
  next
    case nz: False
    let ?q1 = "if frame_count mod frame_interval = 0
               then q @ [Some (FrameData frame_count time)] else q"
    have q1: "\<exists>items. ?q1 = q @ map Some items"
    proof (cases "frame_count mod frame_interval = 0")
      case True
      then have "?q1 = q @ map Some [FrameData frame_count time]" by simp
      then show ?thesis by blast
    next
      case False
      then have "?q1 = q @ map Some []" by simp
      then show ?thesis by blast
    qed
    show ?thesis
    proof (cases quit)
      case True
      with nz "3.prems" have "q' = ?q1" by simp
      with q1 show ?thesis by simp
    next
      case False
      with nz "3.prems" have "capture_loop frame_interval (Suc frame_count) rest ?q1 = (r, q')"
        by simp
      from "3.IH" [OF nz False this] obtain items2 where "q' = ?q1 @ map Some items2" by blast
      moreover from q1 obtain items1 where "?q1 = q @ map Some items1" by blast
      ultimately have "q' = q @ map Some (items1 @ items2)" by simp
      then show ?thesis by blast
    qed
  qed
qed

lemma capture_frames_sentinel_after_loop:
  assumes "opened cam"
    and "capture_loop ((if fps cam = 0 then 30 else fps cam) * interval) 0 (passes cam) q = (Done (), q1)"
  shows "\<exists>items. capture_frames cam interval q = (Done (), q @ map Some items @ [None])"
proof -
  from capture_loop_pushes_frames [OF assms(2)] obtain items where "q1 = q @ map Some items" by blast
  with assms show ?thesis by (simp add: capture_frames_def)
qed

lemma capture_frames_not_opened: "\<not> opened cam \<Longrightarrow> capture_frames cam interval q = (Done (), q)"
  by (simp add: capture_frames_def)

lemma describe_loop_fifo:
  "describe_loop describe (map Some items @ None # rest) pages
     = (Done (pages @ map (page_of describe) items), rest)"
  by (induction items arbitrary: pages) (simp_all add: page_of_def)

lemma describe_loop_blocks:
  "describe_loop describe (map Some items) pages = (Hang, [])"
  by (induction items arbitrary: pages) simp_all

text \<open>
  Claim C9 at a camera that does not open, and at an interval of 0.  \<open>capture_frames\<close>
  returns without having put anything on the queue, so \<open>describe_frames\<close> waits forever
  and writes no PDF; the last two equations show the same camera script with a camera that
  opens and a positive interval, where the sentinel follows the frames and the
  consumer stops at it.
\<close>

theorem capture_frames_sentinel_missing:
  "capture_frames \<lparr>opened = False, fps = 30, passes = [Shot ''12:00:00'' False, ReadFails]\<rparr> 6 []
     = (Done (), [])
   \<and> describe_frames (\<lambda>f. Inr ''a room'') [] = (Hang, [])
   \<and> capture_frames \<lparr>opened = True, fps = 30, passes = [Shot ''12:00:00'' False, ReadFails]\<rparr> 0 []
     = (Done (), [])
   \<and> capture_frames \<lparr>opened = True, fps = 30, passes = [Shot ''12:00:00'' False, ReadFails]\<rparr> 6 []
     = (Done (), [Some (FrameData 0 ''12:00:00''), None])
   \<and> describe_frames (\<lambda>f. Inr ''a room'') [Some (FrameData 0 ''12:00:00''), None]
     = (Done [''a room''], [])"
  by (simp add: capture_frames_def describe_frames_def)

end
